theory Spec2Isabelle
  imports Main
begin

unbundle bit_operations_syntax

section \<open>Common conventions\<close>

text \<open>
  The sources are Python 2 era: a byte string and a text string are the same type, modelled
  as \<^typ>\<open>string\<close>. Python integers are \<^typ>\<open>int\<close>. An exception is a value of
  \<open>error\<close>, on the left of a sum.

  The hash functions come from libraries outside the repository (\<open>bitcoin.sha256\<close>,
  \<open>hmac.new(key, data, hashlib.sha256).digest()\<close>). Every definition that calls one takes
  it as its first argument; what the proofs need of it is a stated hypothesis.
\<close>

datatype error =
  RuntimeError | IndexError | TypeError | ValueError | NameError
  | ZeroDivisionError | UnboundLocalError

section \<open>HMAC\_DRBG (qrl/crypto/hmac\_drbg.py)\<close>

record drbg =
  security_strength :: int
  K :: string
  V :: string
  reseed_counter :: int

text \<open>\<open>update(seed_material)\<close>: \<open>None\<close> is the drop-entropy update.\<close>

definition update :: "(string \<Rightarrow> string \<Rightarrow> string) \<Rightarrow> string option \<Rightarrow> drbg \<Rightarrow> drbg" where
  "update hmac seed_material s =
     (let K1 = hmac (K s) (V s @ [CHR 0x00] @ (case seed_material of None \<Rightarrow> [] | Some m \<Rightarrow> m));
          V1 = hmac K1 (V s)
      in case seed_material of
           None \<Rightarrow> s\<lparr>K := K1, V := V1\<rparr>
         | Some m \<Rightarrow>
             (let K2 = hmac K1 (V1 @ [CHR 0x01] @ m);
                  V2 = hmac K2 V1
              in s\<lparr>K := K2, V := V2\<rparr>))"

definition instantiate :: "(string \<Rightarrow> string \<Rightarrow> string) \<Rightarrow> string \<Rightarrow> string \<Rightarrow> drbg \<Rightarrow> drbg" where
  "instantiate hmac entropy personalisation_string s =
     (let seed_material = entropy @ personalisation_string;
          s1 = s\<lparr>K := replicate 32 (CHR 0x00), V := replicate 32 (CHR 0x01)\<rparr>;
          s2 = update hmac (Some seed_material) s1
      in s2\<lparr>reseed_counter := 1\<rparr>)"

text \<open>
  The constructor \<open>HMAC_DRBG(entropy, personalisation_string, security_strength)\<close>. The
  fields that \<open>instantiate\<close> overwrites do not exist before it runs; they start here at
  empty values.
\<close>

definition HMAC_DRBG :: "(string \<Rightarrow> string \<Rightarrow> string) \<Rightarrow> string \<Rightarrow> string \<Rightarrow> int \<Rightarrow> drbg" where
  "HMAC_DRBG hmac entropy personalisation_string strength =
     instantiate hmac entropy personalisation_string
       \<lparr>security_strength = strength, K = [], V = [], reseed_counter = 0\<rparr>"

text \<open>
  The \<open>while len(temp) < num_bytes\<close> loop of \<open>generate\<close>. It ends only when the HMAC
  returns something non-empty, so it is a partial function: \<open>None\<close> is a loop that runs
  forever. It returns the last \<open>V\<close> and the accumulated \<open>temp\<close>.
\<close>

partial_function (option) generate_loop ::
  "(string \<Rightarrow> string \<Rightarrow> string) \<Rightarrow> string \<Rightarrow> int \<Rightarrow> string \<Rightarrow> string \<Rightarrow> (string \<times> string) option"
where
  "generate_loop hmac key num_bytes v temp =
     (if int (length temp) < num_bytes
      then generate_loop hmac key num_bytes (hmac key v) (temp @ hmac key v)
      else Some (v, temp))"

declare generate_loop.simps [code]

text \<open>
  \<open>generate(num_bytes, requested_security_strength)\<close>. The result is the returned value
  (\<open>Inl\<close> an exception, \<open>Inr None\<close> Python's \<open>None\<close>, \<open>Inr (Some bytes)\<close> the
  output) and the instance afterwards. \<open>temp[:num_bytes]\<close> with a negative
  \<open>num_bytes\<close> is a slice of the empty string, which is empty.
\<close>

definition generate ::
  "(string \<Rightarrow> string \<Rightarrow> string) \<Rightarrow> drbg \<Rightarrow> int \<Rightarrow> int \<Rightarrow> ((error + string option) \<times> drbg) option"
where
  "generate hmac s num_bytes requested_security_strength =
     (if num_bytes * 8 > 7500 then Some (Inl RuntimeError, s)
      else if requested_security_strength > security_strength s then Some (Inl RuntimeError, s)
      else if reseed_counter s \<ge> 80001 then Some (Inr None, s)
      else
        (case generate_loop hmac (K s) num_bytes (V s) [] of
           None \<Rightarrow> None
         | Some (v, temp) \<Rightarrow>
             (let s1 = update hmac None (s\<lparr>V := v\<rparr>);
                  s2 = s1\<lparr>reseed_counter := reseed_counter s1 + 1\<rparr>
              in Some (Inr (Some (take (nat num_bytes) temp)), s2))))"

text \<open>
  \<open>reseed()\<close> evaluates the name \<open>entropy\<close>, which is bound nowhere in the module: the
  call raises before \<open>update\<close> runs. Nothing in the module calls it.
\<close>

definition reseed :: "drbg \<Rightarrow> (error + unit) \<times> drbg" where
  "reseed s = (Inl NameError, s)"

text \<open>
  A caller making one \<open>generate\<close> call after another on the same instance, keeping each
  result (an exception is caught and the next call made).
\<close>

fun generate_calls ::
  "(string \<Rightarrow> string \<Rightarrow> string) \<Rightarrow> drbg \<Rightarrow> (int \<times> int) list \<Rightarrow> ((error + string option) list \<times> drbg) option"
where
  "generate_calls hmac s [] = Some ([], s)"
| "generate_calls hmac s ((num_bytes, strength) # cs) =
     (case generate hmac s num_bytes strength of
        None \<Rightarrow> None
      | Some (out, s1) \<Rightarrow>
          (case generate_calls hmac s1 cs of
             None \<Rightarrow> None
           | Some (outs, s2) \<Rightarrow> Some (out # outs, s2)))"

text \<open>What the proofs assume of HMAC-SHA256: a digest is 32 bytes.\<close>

definition hmac_digest :: "(string \<Rightarrow> string \<Rightarrow> string) \<Rightarrow> bool" where
  "hmac_digest hmac = (\<forall>k d. length (hmac k d) = 32)"

text \<open>
  A stand-in HMAC for concrete evaluations only: 32 bytes computed from a small rolling
  checksum of key and data.
\<close>

definition toy_mix :: "string \<Rightarrow> nat" where
  "toy_mix xs = foldl (\<lambda>h c. (h * 33 + of_char c) mod 65521) 5381 xs"

definition toy_hmac :: "string \<Rightarrow> string \<Rightarrow> string" where
  "toy_hmac k d = map (\<lambda>i. char_of (toy_mix (k @ d) * (i + 1) + i)) [0..<32]"

definition drbg0 :: drbg where
  "drbg0 = HMAC_DRBG toy_hmac ''seed'' ''pers'' 256"

section \<open>Python helpers used by merkle.py\<close>

text \<open>Sequencing of computations that may raise: the first exception wins.\<close>

definition bind_err :: "error + 'a \<Rightarrow> ('a \<Rightarrow> error + 'b) \<Rightarrow> error + 'b" where
  "bind_err m f = (case m of Inl e \<Rightarrow> Inl e | Inr v \<Rightarrow> f v)"

text \<open>\<open>xs[i]\<close> for an index that a \<open>range\<close> produced from zero upwards.\<close>

definition nth_err :: "'a list \<Rightarrow> nat \<Rightarrow> error + 'a" where
  "nth_err xs i = (if i < length xs then Inr (xs ! i) else Inl IndexError)"

text \<open>\<open>xs[i]\<close> for any integer: a negative index counts from the end.\<close>

definition py_nth :: "'a list \<Rightarrow> int \<Rightarrow> error + 'a" where
  "py_nth xs i =
     (if 0 \<le> i \<and> i < int (length xs) then Inr (xs ! nat i)
      else if i < 0 \<and> - int (length xs) \<le> i then Inr (xs ! nat (int (length xs) + i))
      else Inl IndexError)"

text \<open>The value of one hexadecimal digit, either case.\<close>

definition digit16 :: "char \<Rightarrow> nat option" where
  "digit16 c =
     (let n = (of_char c :: nat)
      in if 48 \<le> n \<and> n \<le> 57 then Some (n - 48)
         else if 97 \<le> n \<and> n \<le> 102 then Some (n - 87)
         else if 65 \<le> n \<and> n \<le> 70 then Some (n - 55)
         else None)"

fun digits16 :: "nat \<Rightarrow> string \<Rightarrow> nat option" where
  "digits16 acc [] = Some acc"
| "digits16 acc (c # cs) =
     (case digit16 c of None \<Rightarrow> None | Some d \<Rightarrow> digits16 (16 * acc + d) cs)"

definition is_space :: "char \<Rightarrow> bool" where
  "is_space c = (c \<in> set [CHR '' '', CHR 0x09, CHR 0x0A, CHR 0x0B, CHR 0x0C, CHR 0x0D])"

text \<open>
  \<open>int(s, 16)\<close>: surrounding white space, an optional sign and an optional \<open>0x\<close> prefix
  around at least one hexadecimal digit; anything else raises ValueError. The model is exact
  on strings of hexadecimal digits, which is all that a digest or a random key is. (Python 2
  accepts a few more spellings of a number, such as a trailing \<open>L\<close> on a value beyond the
  machine word; they are ValueError here.)
\<close>

definition py_int16 :: "string \<Rightarrow> error + int" where
  "py_int16 s =
     (let t = rev (dropWhile is_space (rev (dropWhile is_space s)));
          neg = (case t of [] \<Rightarrow> False | c # _ \<Rightarrow> c = CHR ''-'');
          u = (case t of [] \<Rightarrow> [] | c # cs \<Rightarrow> if c = CHR ''-'' \<or> c = CHR ''+'' then cs else t);
          d = (case u of
                 c1 # c2 # cs \<Rightarrow> if c1 = CHR ''0'' \<and> (c2 = CHR ''x'' \<or> c2 = CHR ''X'') then cs else u
               | _ \<Rightarrow> u)
      in if d = [] then Inl ValueError
         else (case digits16 0 d of
                 None \<Rightarrow> Inl ValueError
               | Some n \<Rightarrow> Inr (if neg then - int n else int n)))"

text \<open>The digits of \<open>hex(n)\<close>: lower case, no leading zero, \<open>0\<close> for zero.\<close>

fun hex_of_nat :: "nat \<Rightarrow> string" where
  "hex_of_nat n =
     (if n < 16 then [''0123456789abcdef'' ! n]
      else hex_of_nat (n div 16) @ [''0123456789abcdef'' ! (n mod 16)])"

declare hex_of_nat.simps [simp del]

text \<open>
  Python 2 has two integer types. \<open>int(s, 16)\<close> is a \<open>long\<close> when the value does not fit
  a machine word (64 bits here), \<open>a ^ b\<close> is a \<open>long\<close> when either operand is, and
  \<open>hex\<close> of a \<open>long\<close> ends in \<open>L\<close>.
\<close>

definition is_long :: "int \<Rightarrow> bool" where
  "is_long n = (n > 2 ^ 63 - 1 \<or> n < - (2 ^ 63))"

definition py_hex :: "bool \<Rightarrow> int \<Rightarrow> string" where
  "py_hex long n =
     (if n < 0 then ''-'' else '''') @ ''0x'' @ hex_of_nat (nat \<bar>n\<bar>) @ (if long then ''L'' else '''')"

text \<open>
  \<open>binascii.unhexlify\<close>: two hexadecimal digits make a byte; an odd length or another
  character raises TypeError.
\<close>

fun unhexlify :: "string \<Rightarrow> error + string" where
  "unhexlify [] = Inr []"
| "unhexlify [a] = Inl TypeError"
| "unhexlify (a # b # cs) =
     (case (digit16 a, digit16 b) of
        (Some h, Some l) \<Rightarrow> bind_err (unhexlify cs) (\<lambda>r. Inr (char_of (16 * h + l) # r))
      | _ \<Rightarrow> Inl TypeError)"

text \<open>\<open>ord(b[y:y+1])\<close>: the slice is empty past the end, and \<open>ord\<close> of it raises.\<close>

definition ord_slice :: "string \<Rightarrow> nat \<Rightarrow> error + nat" where
  "ord_slice b y = (if y < length b then Inr (of_char (b ! y)) else Inl TypeError)"

text \<open>\<open>bin(n)\<close> of a byte value: \<open>0b\<close> and the binary digits, \<open>0b0\<close> for zero.\<close>

fun bin_of_nat :: "nat \<Rightarrow> string" where
  "bin_of_nat n =
     (if n < 2 then [''01'' ! n] else bin_of_nat (n div 2) @ [''01'' ! (n mod 2)])"

declare bin_of_nat.simps [simp del]

definition py_bin :: "nat \<Rightarrow> string" where
  "py_bin n = ''0b'' @ bin_of_nat n"

text \<open>
  What the proofs assume of \<open>sha256\<close> (the hex digest of the bitcoin library): 64 lower
  case hexadecimal digits.
\<close>

definition hexdigest :: "(string \<Rightarrow> string) \<Rightarrow> bool" where
  "hexdigest sha256 = (\<forall>x. length (sha256 x) = 64 \<and> set (sha256 x) \<subseteq> set ''0123456789abcdef'')"

section \<open>Winternitz OTS+ (merkle.py)\<close>

definition fn_k :: "(string \<Rightarrow> string) \<Rightarrow> string \<Rightarrow> string \<Rightarrow> string" where
  "fn_k sha256 x k = sha256 (k @ x)"

text \<open>
  One pass of the loop body \<open>x = fn_k(hex(int(x,16)^int(r[y],16)),k)\<close>, shared by
  \<open>chain_fn\<close> and \<open>chain_fn2\<close>.
\<close>

definition chain_step :: "(string \<Rightarrow> string) \<Rightarrow> string list \<Rightarrow> string \<Rightarrow> string \<Rightarrow> int \<Rightarrow> error + string" where
  "chain_step sha256 r k x y =
     bind_err (py_int16 x) (\<lambda>a.
     bind_err (py_nth r y) (\<lambda>ry.
     bind_err (py_int16 ry) (\<lambda>b.
       Inr (fn_k sha256 (py_hex (is_long a \<or> is_long b) (a XOR b)) k))))"

fun chain_loop :: "(string \<Rightarrow> string) \<Rightarrow> string list \<Rightarrow> string \<Rightarrow> int list \<Rightarrow> string \<Rightarrow> error + string" where
  "chain_loop sha256 r k [] x = Inr x"
| "chain_loop sha256 r k (y # ys) x =
     bind_err (chain_step sha256 r k x y) (chain_loop sha256 r k ys)"

definition chain_fn :: "(string \<Rightarrow> string) \<Rightarrow> string \<Rightarrow> string list \<Rightarrow> int \<Rightarrow> string \<Rightarrow> error + string" where
  "chain_fn sha256 x r i k =
     (if i = 0 then Inr x else chain_loop sha256 r k [0..i - 1] x)"

definition chain_fn2 :: "(string \<Rightarrow> string) \<Rightarrow> string \<Rightarrow> string list \<Rightarrow> int \<Rightarrow> string \<Rightarrow> error + string" where
  "chain_fn2 sha256 x r i k = chain_loop sha256 r k [i..14] x"

text \<open>
  A Winternitz+ public key is the Python list \<open>[(r, k), pk_1, ..., pk_l]\<close>: here the pair
  \<open>pub[0]\<close> and the list \<open>pub[1:]\<close>.
\<close>

type_synonym wpub = "(string list \<times> string) \<times> string list"

text \<open>The \<open>i\<close>-th call of \<open>random_key()\<close> returns \<open>random_key i\<close>.\<close>

fun map_err :: "('a \<Rightarrow> error + 'b) \<Rightarrow> 'a list \<Rightarrow> error + 'b list" where
  "map_err f [] = Inr []"
| "map_err f (x # xs) = bind_err (f x) (\<lambda>y. bind_err (map_err f xs) (\<lambda>ys. Inr (y # ys)))"

text \<open>
  \<open>random_wpkey(w=16)\<close>. The lengths are computed in floating point from \<open>w\<close>; at the
  default \<open>w = 16\<close> they are \<open>l_1 = 64\<close>, \<open>l_2 = 3\<close>, \<open>l = 67\<close>, the values that
  \<open>sign_wpkey\<close> writes out, and only that case is modelled.
\<close>

definition random_wpkey :: "(string \<Rightarrow> string) \<Rightarrow> (nat \<Rightarrow> string) \<Rightarrow> error + (string list \<times> wpub)" where
  "random_wpkey sha256 random_key =
     (let w = 16; l = 67;
          sk = map random_key [0..<l + w - 1];
          priv = take (length sk - (w - 1)) sk;
          r = drop l sk;
          k = random_key (l + w - 1)
      in bind_err (map_err (\<lambda>sk1. chain_fn sha256 sk1 r (int w - 1) k) priv) (\<lambda>chains.
           Inr (priv, ((r, k), chains))))"

text \<open>
  The digit sequence \<open>s\<close>, the code that \<open>sign_wpkey\<close> and \<open>verify_wpkey\<close> both run
  on the digest (for \<open>w = 16\<close>): 64 message digits with their checksum, then the digits of
  the checksum.
\<close>

fun message_digits :: "string \<Rightarrow> nat list \<Rightarrow> int list \<times> int \<Rightarrow> error + (int list \<times> int)" where
  "message_digits message [] (s, checksum) = Inr (s, checksum)"
| "message_digits message (x # xs) (s, checksum) =
     bind_err (nth_err message x) (\<lambda>ch.
     bind_err (py_int16 [ch]) (\<lambda>y.
       message_digits message xs (s @ [y], checksum + (16 - 1 - y))))"

fun checksum_digits :: "string \<Rightarrow> nat list \<Rightarrow> int list \<Rightarrow> error + int list" where
  "checksum_digits c [] s = Inr s"
| "checksum_digits c (x # xs) s =
     bind_err (nth_err c x) (\<lambda>ch.
     bind_err (py_int16 [ch]) (\<lambda>y.
       checksum_digits c xs (s @ [y])))"

definition checksum_string :: "int \<Rightarrow> string" where
  "checksum_string checksum =
     (let c = drop 2 (py_hex False checksum)
      in if length c < 3 then ''0'' @ c else c)"

definition wp_digits :: "(string \<Rightarrow> string) \<Rightarrow> string \<Rightarrow> error + int list" where
  "wp_digits sha256 message0 =
     (let message = sha256 message0
      in bind_err (message_digits message [0..<64] ([], 0)) (\<lambda>(s, checksum).
           checksum_digits (checksum_string checksum) [0..<3] s))"

fun sign_wpkey_loop ::
  "(string \<Rightarrow> string) \<Rightarrow> string list \<Rightarrow> wpub \<Rightarrow> int list \<Rightarrow> nat list \<Rightarrow> string list \<Rightarrow> error + string list"
where
  "sign_wpkey_loop sha256 priv pub s [] signature = Inr signature"
| "sign_wpkey_loop sha256 priv pub s (x # xs) signature =
     bind_err (nth_err priv x) (\<lambda>p.
     bind_err (nth_err s x) (\<lambda>sx.
     bind_err (chain_fn sha256 p (fst (fst pub)) sx (snd (fst pub))) (\<lambda>v.
       sign_wpkey_loop sha256 priv pub s xs (signature @ [v]))))"

definition sign_wpkey :: "(string \<Rightarrow> string) \<Rightarrow> string list \<Rightarrow> string \<Rightarrow> wpub \<Rightarrow> error + string list" where
  "sign_wpkey sha256 priv message pub =
     bind_err (wp_digits sha256 message) (\<lambda>s. sign_wpkey_loop sha256 priv pub s [0..<67] [])"

fun verify_wpkey_loop ::
  "(string \<Rightarrow> string) \<Rightarrow> string list \<Rightarrow> wpub \<Rightarrow> int list \<Rightarrow> nat list \<Rightarrow> string list \<Rightarrow> error + string list"
where
  "verify_wpkey_loop sha256 signature pub s [] pub2 = Inr pub2"
| "verify_wpkey_loop sha256 signature pub s (x # xs) pub2 =
     bind_err (nth_err signature x) (\<lambda>g.
     bind_err (nth_err s x) (\<lambda>sx.
     bind_err (chain_fn2 sha256 g (fst (fst pub)) sx (snd (fst pub))) (\<lambda>v.
       verify_wpkey_loop sha256 signature pub s xs (pub2 @ [v]))))"

definition verify_wpkey :: "(string \<Rightarrow> string) \<Rightarrow> string list \<Rightarrow> string \<Rightarrow> wpub \<Rightarrow> error + bool" where
  "verify_wpkey sha256 signature message pub =
     bind_err (wp_digits sha256 message) (\<lambda>s.
     bind_err (verify_wpkey_loop sha256 signature pub s [0..<67] []) (\<lambda>pub2.
       Inr (pub2 = snd pub)))"

section \<open>Winternitz OTS (merkle.py)\<close>

text \<open>
  \<open>random_wkey(w=8)\<close>. \<open>256/w\<close> is Python 2 integer division: it raises for
  \<open>w = 0\<close>, and a negative quotient makes the range empty.
\<close>

definition random_wkey ::
  "(string \<Rightarrow> string) \<Rightarrow> (nat \<Rightarrow> string) \<Rightarrow> int \<Rightarrow> error + (string list \<times> string list)"
where
  "random_wkey sha256 random_key w0 =
     (let w = (if w0 > 16 then 16 else w0)
      in if w = 0 then Inl ZeroDivisionError
         else
           (let priv = map random_key [0..<nat (256 div w)];
                pub = map (\<lambda>a. sha256 ((sha256 ^^ (2 ^ nat w - 1)) a)) priv
            in Inr (priv, pub)))"

fun sign_wkey_loop ::
  "(string \<Rightarrow> string) \<Rightarrow> string list \<Rightarrow> string \<Rightarrow> nat list \<Rightarrow> string list \<Rightarrow> error + string list"
where
  "sign_wkey_loop sha256 priv bin_msg [] signature = Inr signature"
| "sign_wkey_loop sha256 priv bin_msg (y # ys) signature =
     bind_err (nth_err priv y) (\<lambda>s.
     bind_err (ord_slice bin_msg y) (\<lambda>b.
       sign_wkey_loop sha256 priv bin_msg ys (signature @ [(sha256 ^^ (256 - b)) s])))"

definition sign_wkey :: "(string \<Rightarrow> string) \<Rightarrow> string list \<Rightarrow> string \<Rightarrow> error + string list" where
  "sign_wkey sha256 priv message =
     bind_err (unhexlify (sha256 message)) (\<lambda>bin_msg.
       sign_wkey_loop sha256 priv bin_msg [0..<length priv] [])"

fun verify_wkey_loop ::
  "(string \<Rightarrow> string) \<Rightarrow> string list \<Rightarrow> string \<Rightarrow> nat list \<Rightarrow> string list \<Rightarrow> error + string list"
where
  "verify_wkey_loop sha256 signature bin_msg [] verify = Inr verify"
| "verify_wkey_loop sha256 signature bin_msg (x # xs) verify =
     bind_err (nth_err signature x) (\<lambda>a.
     bind_err (ord_slice bin_msg x) (\<lambda>b.
       verify_wkey_loop sha256 signature bin_msg xs (verify @ [(sha256 ^^ b) a])))"

definition verify_wkey :: "(string \<Rightarrow> string) \<Rightarrow> string list \<Rightarrow> string \<Rightarrow> string list \<Rightarrow> error + bool" where
  "verify_wkey sha256 signature message pub =
     bind_err (unhexlify (sha256 message)) (\<lambda>bin_msg.
     bind_err (verify_wkey_loop sha256 signature bin_msg [0..<length signature] []) (\<lambda>verify.
       Inr (\<not> pub \<noteq> verify)))"

section \<open>Lamport-Diffie OTS (merkle.py)\<close>

definition random_lkey ::
  "(string \<Rightarrow> string) \<Rightarrow> (nat \<Rightarrow> string) \<Rightarrow> int \<Rightarrow> (string \<times> string) list \<times> (string \<times> string) list"
where
  "random_lkey sha256 random_key numbers =
     (let priv = map (\<lambda>x. (random_key (2 * x), random_key (2 * x + 1))) [0..<nat numbers];
          pub = map (\<lambda>(a, b). (sha256 a, sha256 b)) priv
      in (priv, pub))"

text \<open>\<open>while len(l_byte) < 8: l_byte = '0' + l_byte\<close>\<close>

function pad8 :: "string \<Rightarrow> string" where
  "pad8 l_byte = (if length l_byte < 8 then pad8 (CHR ''0'' # l_byte) else l_byte)"
  by pat_completeness auto
termination
  by (relation "measure (\<lambda>l_byte. 8 - length l_byte)") auto

declare pad8.simps [simp del]

text \<open>\<open>l_byte[-1:]\<close> and \<open>l_byte[:-1]\<close>; the first is empty on the empty string.\<close>

definition last_slice :: "string \<Rightarrow> string" where
  "last_slice l_byte = (if l_byte = [] then [] else [last l_byte])"

text \<open>
  The eight passes \<open>for y in range(0,8)\<close> of \<open>sign_lkey\<close> on one byte: the state is the
  signature so far, the rest of \<open>l_byte\<close> and \<open>z\<close>.
\<close>

fun sign_lkey_bits ::
  "(string \<times> string) list \<Rightarrow> nat \<Rightarrow> string \<Rightarrow> nat \<Rightarrow> string list \<Rightarrow> error + (string list \<times> nat)"
where
  "sign_lkey_bits priv 0 l_byte z signature = Inr (signature, z)"
| "sign_lkey_bits priv (Suc n) l_byte z signature =
     bind_err (nth_err priv z) (\<lambda>p.
       if last_slice l_byte = ''0''
       then sign_lkey_bits priv n (butlast l_byte) (z + 1) (signature @ [fst p])
       else sign_lkey_bits priv n (butlast l_byte) (z + 1) (signature @ [snd p]))"

fun sign_lkey_bytes ::
  "(string \<times> string) list \<Rightarrow> string \<Rightarrow> nat \<Rightarrow> string list \<Rightarrow> error + string list"
where
  "sign_lkey_bytes priv [] z signature = Inr signature"
| "sign_lkey_bytes priv (b # bs) z signature =
     (let l_byte = pad8 (drop 2 (py_bin (of_char b)))
      in bind_err (sign_lkey_bits priv 8 l_byte z signature) (\<lambda>(signature1, z1).
           sign_lkey_bytes priv bs z1 signature1))"

definition sign_lkey :: "(string \<Rightarrow> string) \<Rightarrow> (string \<times> string) list \<Rightarrow> string \<Rightarrow> error + string list" where
  "sign_lkey sha256 priv message =
     bind_err (unhexlify (sha256 message)) (\<lambda>bin_lmsg. sign_lkey_bytes priv bin_lmsg 0 [])"

fun verify_lkey_bits ::
  "(string \<Rightarrow> string) \<Rightarrow> string list \<Rightarrow> (string \<times> string) list \<Rightarrow> nat \<Rightarrow> string \<Rightarrow> nat \<Rightarrow>
   (string \<times> string) list \<Rightarrow> error + ((string \<times> string) list \<times> nat)"
where
  "verify_lkey_bits sha256 signature pub 0 l_byte z verify = Inr (verify, z)"
| "verify_lkey_bits sha256 signature pub (Suc n) l_byte z verify =
     bind_err (nth_err signature z) (\<lambda>g.
     bind_err (nth_err pub z) (\<lambda>p.
       if last_slice l_byte = ''0''
       then verify_lkey_bits sha256 signature pub n (butlast l_byte) (z + 1) (verify @ [(sha256 g, fst p)])
       else verify_lkey_bits sha256 signature pub n (butlast l_byte) (z + 1) (verify @ [(sha256 g, snd p)])))"

fun verify_lkey_bytes ::
  "(string \<Rightarrow> string) \<Rightarrow> string list \<Rightarrow> (string \<times> string) list \<Rightarrow> string \<Rightarrow> nat \<Rightarrow>
   (string \<times> string) list \<Rightarrow> error + (string \<times> string) list"
where
  "verify_lkey_bytes sha256 signature pub [] z verify = Inr verify"
| "verify_lkey_bytes sha256 signature pub (b # bs) z verify =
     (let l_byte = pad8 (drop 2 (py_bin (of_char b)))
      in bind_err (verify_lkey_bits sha256 signature pub 8 l_byte z verify) (\<lambda>(verify1, z1).
           verify_lkey_bytes sha256 signature pub bs z1 verify1))"

text \<open>The closing loop returns False at the first pair whose halves differ.\<close>

definition verify_lkey ::
  "(string \<Rightarrow> string) \<Rightarrow> string list \<Rightarrow> string \<Rightarrow> (string \<times> string) list \<Rightarrow> error + bool"
where
  "verify_lkey sha256 signature message pub =
     bind_err (unhexlify (sha256 message)) (\<lambda>bin_lmsg.
     bind_err (verify_lkey_bytes sha256 signature pub bin_lmsg 0 []) (\<lambda>verify.
       Inr (list_all (\<lambda>p. fst p = snd p) verify)))"

section \<open>Merkle tree (merkle.py)\<close>

text \<open>
  A public key handed to \<open>verify_root\<close> is a list of strings (Winternitz) or a list of
  pairs of strings (Lamport-Diffie).
\<close>

datatype pubkey = WOTS_pub "string list" | LDOTS_pub "(string \<times> string) list"

text \<open>
  An element of an authentication path is a Python tuple \<open>(left, right)\<close> or the list
  \<open>root\<close>; \<open>verify_root\<close> takes its length, indexes it, tests membership and joins it,
  which a list of strings models for both.
\<close>

type_synonym auth_path = "string list list"

record merkle =
  base :: "string list"
  tree :: "string list list"
  num_leaves :: nat
  num_branches :: nat
  root :: "string list"
  height :: nat
  auth_lists :: "auth_path list"

text \<open>
  The \<open>if\<close>/\<open>elif\<close> chain of \<open>create_tree\<close>. Above 512 leaves no branch assigns
  \<open>num_branches\<close> and reading it raises.
\<close>

definition branches_for :: "nat \<Rightarrow> error + nat" where
  "branches_for n =
     (if n \<le> 2 then Inr 1
      else if n > 2 \<and> n \<le> 4 then Inr 2
      else if n > 4 \<and> n \<le> 8 then Inr 3
      else if n > 8 \<and> n \<le> 16 then Inr 4
      else if n > 16 \<and> n \<le> 32 then Inr 5
      else if n > 32 \<and> n \<le> 64 then Inr 6
      else if n > 64 \<and> n \<le> 128 then Inr 7
      else if n > 128 \<and> n \<le> 256 then Inr 8
      else if n > 256 \<and> n \<le> 512 then Inr 9
      else Inl UnboundLocalError)"

text \<open>
  The inner loop \<open>for x in range(cycles)\<close>: the first argument counts the passes left,
  \<open>y\<close> is the read position.
\<close>

fun layer_loop :: "(string \<Rightarrow> string) \<Rightarrow> string list \<Rightarrow> nat \<Rightarrow> nat \<Rightarrow> string list \<Rightarrow> error + string list" where
  "layer_loop sha256 hashlayer 0 y temp_array = Inr temp_array"
| "layer_loop sha256 hashlayer (Suc n) y temp_array =
     (if y + 1 = length hashlayer
      then bind_err (nth_err hashlayer y) (\<lambda>a.
             layer_loop sha256 hashlayer n y (temp_array @ [a]))
      else bind_err (nth_err hashlayer y) (\<lambda>a.
           bind_err (nth_err hashlayer (y + 1)) (\<lambda>b.
             layer_loop sha256 hashlayer n (y + 2) (temp_array @ [sha256 (a @ b)]))))"

definition next_layer :: "(string \<Rightarrow> string) \<Rightarrow> string list \<Rightarrow> error + string list" where
  "next_layer sha256 hashlayer =
     (let cycles = length hashlayer mod 2 + length hashlayer div 2
      in layer_loop sha256 hashlayer cycles 0 [])"

text \<open>
  The outer loop \<open>for x in range(num_branches)\<close>: the state is the tree so far, the
  current \<open>hashlayer\<close> and \<open>temp_array\<close> (unbound before the first pass, here the empty
  list; \<open>num_branches\<close> is never 0).
\<close>

fun tree_loop ::
  "(string \<Rightarrow> string) \<Rightarrow> nat \<Rightarrow> string list list \<times> string list \<times> string list \<Rightarrow>
   error + (string list list \<times> string list \<times> string list)"
where
  "tree_loop sha256 0 st = Inr st"
| "tree_loop sha256 (Suc n) (tr, hashlayer, temp_array0) =
     bind_err (next_layer sha256 hashlayer) (\<lambda>temp_array.
       tree_loop sha256 n (tr @ [temp_array], temp_array, temp_array))"

definition create_tree :: "(string \<Rightarrow> string) \<Rightarrow> merkle \<Rightarrow> error + merkle" where
  "create_tree sha256 m =
     bind_err (branches_for (num_leaves m)) (\<lambda>nb.
     bind_err (tree_loop sha256 nb (tree m @ [base m], base m, [])) (\<lambda>(tr, hashlayer, temp_array).
       Inr (m\<lparr>num_branches := nb, tree := tr, root := temp_array, height := length tr\<rparr>)))"

text \<open>
  \<open>route_proof\<close>, innermost loop \<open>for nodehash in nodes_above\<close>: the state is
  \<open>auth_route\<close> and \<open>leaf\<close>, which the loop body reassigns while it runs.
\<close>

fun above_loop ::
  "(string \<Rightarrow> string) \<Rightarrow> string \<Rightarrow> string list \<Rightarrow> auth_path \<times> string \<Rightarrow> auth_path \<times> string"
where
  "above_loop sha256 node [] (auth_route, leaf) = (auth_route, leaf)"
| "above_loop sha256 node (nodehash # rest) (auth_route, leaf) =
     (if sha256 (leaf @ node) = nodehash
      then above_loop sha256 node rest (auth_route @ [[leaf, node]], nodehash)
      else if sha256 (node @ leaf) = nodehash
      then above_loop sha256 node rest (auth_route @ [[node, leaf]], nodehash)
      else above_loop sha256 node rest (auth_route, leaf))"

text \<open>The loop \<open>for node in nodes\<close>.\<close>

fun nodes_loop ::
  "(string \<Rightarrow> string) \<Rightarrow> string list \<Rightarrow> string list \<Rightarrow> auth_path \<times> string \<Rightarrow> auth_path \<times> string"
where
  "nodes_loop sha256 nodes_above [] st = st"
| "nodes_loop sha256 nodes_above (node # rest) (auth_route, leaf) =
     (if leaf \<noteq> node
      then nodes_loop sha256 nodes_above rest (above_loop sha256 node nodes_above (auth_route, leaf))
      else nodes_loop sha256 nodes_above rest (auth_route, leaf))"

text \<open>
  The loop \<open>for x in range(self.height)\<close> for one leaf. \<open>auth_route\<close> is appended to
  \<open>auth_lists\<close> by reference, so what \<open>auth_lists\<close> holds in the end is the final
  \<open>auth_route\<close>, once for every time it was appended: the third component of the state
  counts these.
\<close>

fun height_loop ::
  "(string \<Rightarrow> string) \<Rightarrow> merkle \<Rightarrow> nat list \<Rightarrow> auth_path \<times> string \<times> nat \<Rightarrow>
   error + (auth_path \<times> string \<times> nat)"
where
  "height_loop sha256 m [] st = Inr st"
| "height_loop sha256 m (x # xs) (auth_route, leaf, appended) =
     bind_err (nth_err (tree m) x) (\<lambda>nodes.
       if length nodes = 1
       then (if nodes = root m
             then height_loop sha256 m xs (auth_route @ [root m], leaf, appended + 1)
             else height_loop sha256 m xs (auth_route, leaf, appended))
       else bind_err (nth_err (tree m) (x + 1)) (\<lambda>nodes_above.
              (case nodes_loop sha256 nodes_above nodes (auth_route, leaf) of
                 (auth_route1, leaf1) \<Rightarrow> height_loop sha256 m xs (auth_route1, leaf1, appended))))"

definition leaf_route :: "(string \<Rightarrow> string) \<Rightarrow> merkle \<Rightarrow> nat \<Rightarrow> error + auth_path list" where
  "leaf_route sha256 m y =
     bind_err (nth_err (tree m) 0) (\<lambda>layer0.
     bind_err (nth_err layer0 y) (\<lambda>leaf.
     bind_err (height_loop sha256 m [0..<height m] ([], leaf, 0)) (\<lambda>(auth_route, leaf1, appended).
       Inr (replicate appended auth_route))))"

definition route_proof :: "(string \<Rightarrow> string) \<Rightarrow> merkle \<Rightarrow> error + merkle" where
  "route_proof sha256 m =
     bind_err (map_err (leaf_route sha256 m) [0..<num_leaves m]) (\<lambda>routes.
       Inr (m\<lparr>auth_lists := concat routes\<rparr>))"

text \<open>
  The constructor \<open>Merkle(base)\<close>: \<open>merkle_init\<close> is the assignments of
  \<open>__init__\<close>. With an empty base it returns at once, and the object has no \<open>root\<close>,
  \<open>height\<close> or \<open>auth_lists\<close>; they are empty here, and 0.
\<close>

definition merkle_init :: "string list \<Rightarrow> merkle" where
  "merkle_init b =
     \<lparr>base = b, tree = [], num_leaves = length b, num_branches = 0, root = [],
      height = 0, auth_lists = []\<rparr>"

definition Merkle :: "(string \<Rightarrow> string) \<Rightarrow> string list \<Rightarrow> error + merkle" where
  "Merkle sha256 b =
     (let m = merkle_init b
      in if base m = [] then Inr m
         else bind_err (create_tree sha256 m) (route_proof sha256))"

text \<open>
  \<open>verify_root(pub, merkle_root, merkle_path)\<close>. A key of 256 elements is flattened
  before it is joined; joining a list of pairs that was not flattened raises TypeError.
\<close>

definition join_pub :: "pubkey \<Rightarrow> error + string" where
  "join_pub pub =
     (case pub of
        WOTS_pub ws \<Rightarrow> Inr (concat ws)
      | LDOTS_pub ps \<Rightarrow>
          if length ps = 256 then Inr (concat (map (\<lambda>(a, b). a @ b) ps)) else Inl TypeError)"

definition pub_empty :: "pubkey \<Rightarrow> bool" where
  "pub_empty pub = (case pub of WOTS_pub ws \<Rightarrow> ws = [] | LDOTS_pub ps \<Rightarrow> ps = [])"

fun verify_root_loop ::
  "(string \<Rightarrow> string) \<Rightarrow> string \<Rightarrow> auth_path \<Rightarrow> nat list \<Rightarrow> error + bool"
where
  "verify_root_loop sha256 merkle_root merkle_path [] = Inr False"
| "verify_root_loop sha256 merkle_root merkle_path (x # xs) =
     bind_err (nth_err merkle_path x) (\<lambda>e.
       if length e = 1 then Inr (concat e = merkle_root)
       else bind_err (nth_err e 0) (\<lambda>a.
            bind_err (nth_err e 1) (\<lambda>b.
            bind_err (nth_err merkle_path (x + 1)) (\<lambda>e1.
              if sha256 (a @ b) \<notin> set e1 then Inr False
              else verify_root_loop sha256 merkle_root merkle_path xs))))"

definition verify_root :: "(string \<Rightarrow> string) \<Rightarrow> pubkey \<Rightarrow> string \<Rightarrow> auth_path \<Rightarrow> error + bool" where
  "verify_root sha256 pub merkle_root merkle_path =
     (if pub_empty pub then Inr False
      else if merkle_root = [] then Inr False
      else if merkle_path = [] then Inr False
      else bind_err (join_pub pub) (\<lambda>joined.
           bind_err (nth_err merkle_path 0) (\<lambda>e0.
             if sha256 joined \<notin> set e0 then Inr False
             else verify_root_loop sha256 merkle_root merkle_path [0..<length merkle_path])))"

text \<open>The leaf of a key pair in the tree: \<open>pubhash\<close> of the classes WOTS and LDOTS.\<close>

definition pubhash :: "(string \<Rightarrow> string) \<Rightarrow> pubkey \<Rightarrow> string" where
  "pubhash sha256 pub =
     (case pub of
        WOTS_pub ws \<Rightarrow> sha256 (concat ws)
      | LDOTS_pub ps \<Rightarrow> sha256 (concat (map (\<lambda>(a, b). a @ b) ps)))"

text \<open>Stand-ins for \<open>sha256\<close>, for concrete evaluations only.\<close>

definition hex64 :: "nat \<Rightarrow> string" where
  "hex64 n = (let d = hex_of_nat n in replicate (64 - length d) (CHR ''0'') @ d)"

definition toy_sha256 :: "string \<Rightarrow> string" where
  "toy_sha256 x =
     (let v = foldl (\<lambda>h c. (h * 257 + of_char c + 1) mod 1000003) (7::int) x
      in replicate 59 (CHR ''0'') @
         map (\<lambda>d. ''0123456789abcdef'' ! nat ((v div d) mod 16)) [65536, 4096, 256, 16, 1])"

text \<open>A non-empty string of hexadecimal digits: what a digest or a random key is.\<close>

definition hex_string :: "string \<Rightarrow> bool" where
  "hex_string s = (s \<noteq> [] \<and> (\<forall>c \<in> set s. digit16 c \<noteq> None))"

section \<open>Specification functions used in the proofs\<close>

text \<open>
  One step of the tree construction as a recursion on the layer: adjacent elements hashed
  as \<open>H(left || right)\<close>, an odd last element kept as it is. \<open>next_layer\<close>, the loop of
  the source, is proved to compute it.
\<close>

fun paired_layer :: "(string \<Rightarrow> string) \<Rightarrow> string list \<Rightarrow> string list" where
  "paired_layer sha256 [] = []"
| "paired_layer sha256 [a] = [a]"
| "paired_layer sha256 (a # b # xs) = sha256 (a @ b) # paired_layer sha256 xs"

text \<open>The layers above a given layer, \<open>n\<close> of them.\<close>

fun layers_above :: "(string \<Rightarrow> string) \<Rightarrow> nat \<Rightarrow> string list \<Rightarrow> string list list" where
  "layers_above sha256 0 xs = []"
| "layers_above sha256 (Suc n) xs = paired_layer sha256 xs # layers_above sha256 n (paired_layer sha256 xs)"

text \<open>
  A stand-in that agrees with SHA-256 on two inputs (the digests of the byte strings
  \<open>m61\<close> and \<open>00\<close>, from a reference implementation) and is the toy hash elsewhere.
\<close>

definition sha256_sample :: "string \<Rightarrow> string" where
  "sha256_sample x =
     (if x = ''m61'' then ''ff997b0aea45ca51626e1e595a0527be5a883c42f9c82fb900bcbc3ac3906ed1''
      else if x = ''00'' then ''f1534392279bddbf9d43dde8701cb5be14b82f76ec6607bf8d6ad557f60f304e''
      else toy_sha256 x)"

text \<open>
  The decisions of the eight passes over one \<open>l_byte\<close> (True: the last character is
  \<open>0\<close>, the first half of the pair is taken), and those of all bytes of a digest. Both
  \<open>sign_lkey\<close> and \<open>verify_lkey\<close> are proved to follow them.
\<close>

fun bit_choices :: "nat \<Rightarrow> string \<Rightarrow> bool list" where
  "bit_choices 0 l_byte = []"
| "bit_choices (Suc n) l_byte = (last_slice l_byte = ''0'') # bit_choices n (butlast l_byte)"

definition lkey_choices :: "string \<Rightarrow> bool list" where
  "lkey_choices bin_lmsg =
     concat (map (\<lambda>b. bit_choices 8 (pad8 (drop 2 (py_bin (of_char b))))) bin_lmsg)"

text \<open>
  A stand-in whose every digest is 64 times the digit \<open>f\<close>, the digest whose checksum is 0.
  No message with such a SHA-256 digest is known.
\<close>

definition sha256_ff :: "string \<Rightarrow> string" where
  "sha256_ff x = replicate 64 (CHR ''f'')"

text \<open>A key that \<open>verify_root\<close> can join: not empty, and 256 pairs when it is a list of pairs.\<close>

definition key_ok :: "pubkey \<Rightarrow> bool" where
  "key_ok pub = (case pub of WOTS_pub ws \<Rightarrow> ws \<noteq> [] | LDOTS_pub ps \<Rightarrow> length ps = 256)"

text \<open>
  Absence of hash coincidences between a layer \<open>nodes\<close> and the layer \<open>nodes_above\<close>
  built from it, which is what a collision-resistant hash gives on distinct leaves: the
  nodes of each layer are pairwise different; two nodes of the layer whose concatenation
  hashes into the layer above are an adjacent pair \<open>(2j, 2j+1)\<close> of the construction; and
  the hash of such a pair, concatenated on either side with a node of the layer, does not
  hash into the layer above.
\<close>

definition genuine_pair :: "string list \<Rightarrow> string \<Rightarrow> string \<Rightarrow> bool" where
  "genuine_pair nodes u w =
     (\<exists>j \<in> set [0..<length nodes].
        2 * j + 1 < length nodes \<and> u = nodes ! (2 * j) \<and> w = nodes ! (2 * j + 1))"

definition layer_ok :: "(string \<Rightarrow> string) \<Rightarrow> string list \<Rightarrow> string list \<Rightarrow> bool" where
  "layer_ok sha256 nodes nodes_above =
     (distinct nodes \<and> distinct nodes_above \<and>
      (\<forall>u \<in> set nodes. \<forall>w \<in> set nodes.
         sha256 (u @ w) \<in> set nodes_above \<longrightarrow> genuine_pair nodes u w) \<and>
      (\<forall>j \<in> set [0..<length nodes]. 2 * j + 1 < length nodes \<longrightarrow>
         (\<forall>w \<in> set nodes.
            sha256 (sha256 (nodes ! (2 * j) @ nodes ! (2 * j + 1)) @ w) \<notin> set nodes_above \<and>
            sha256 (w @ sha256 (nodes ! (2 * j) @ nodes ! (2 * j + 1))) \<notin> set nodes_above)))"

fun no_coincidence :: "(string \<Rightarrow> string) \<Rightarrow> string list list \<Rightarrow> bool" where
  "no_coincidence sha256 (nodes # nodes_above # rest) =
     (layer_ok sha256 nodes nodes_above \<and> no_coincidence sha256 (nodes_above # rest))"
| "no_coincidence sha256 layers = True"

text \<open>
  The authentication path of the node at position \<open>p\<close> of the first of the given layers,
  as index arithmetic: at a layer where the node has a neighbour, the pair
  \<open>(left, right)\<close>; at a layer where it is the unpaired last node, nothing; at the top,
  the root layer. \<open>route_proof\<close>, which searches instead, is proved to compute it when
  there is no hash coincidence.
\<close>

fun auth_path_of :: "string list list \<Rightarrow> nat \<Rightarrow> auth_path" where
  "auth_path_of [] p = []"
| "auth_path_of [top_layer] p = [top_layer]"
| "auth_path_of (nodes # nodes_above # rest) p =
     (if 2 * (p div 2) + 1 < length nodes
      then [nodes ! (2 * (p div 2)), nodes ! (2 * (p div 2) + 1)]
             # auth_path_of (nodes_above # rest) (p div 2)
      else auth_path_of (nodes_above # rest) (p div 2))"

text \<open>
  Over \<open>k\<close> construction steps from a layer of \<open>len\<close> nodes, the number of layers (of
  more than one node) at which the node on the way up from position \<open>p\<close> is the unpaired
  last one.
\<close>

fun carried :: "nat \<Rightarrow> nat \<Rightarrow> nat \<Rightarrow> nat" where
  "carried 0 len p = 0"
| "carried (Suc k) len p =
     (if 1 < len \<and> \<not> 2 * (p div 2) + 1 < len then 1 else 0)
       + carried k ((len + 1) div 2) (p div 2)"

text \<open>
  A path that \<open>verify_root\<close> accepts for the root string \<open>rt\<close>: pairs, each hashing into
  the next element, then the singleton root.
\<close>

fun chained :: "(string \<Rightarrow> string) \<Rightarrow> string \<Rightarrow> auth_path \<Rightarrow> bool" where
  "chained sha256 rt [] = False"
| "chained sha256 rt [e] = (e = [rt])"
| "chained sha256 rt (e # e1 # es) =
     (length e = 2 \<and> sha256 (e ! 0 @ e ! 1) \<in> set e1 \<and> chained sha256 rt (e1 # es))"

text \<open>Three Winternitz public keys of one element each, for concrete evaluations.\<close>

definition three_keys :: "pubkey list" where
  "three_keys = [WOTS_pub [''k0''], WOTS_pub [''k1''], WOTS_pub [''k2'']]"

text \<open>
  A second stand-in hash, in boolean operations only, so that the trees of the Merkle
  examples, whose nodes are hashes of 128 characters, are evaluated quickly: a state of
  17 bits is combined with the bits of each character and rotated, and four hexadecimal
  digits are read from it.
\<close>

definition char_bits :: "char \<Rightarrow> bool list" where
  "char_bits c = [digit0 c, digit1 c, digit2 c, digit3 c, digit4 c, digit5 c, digit6 c, digit7 c]"

definition stir :: "bool list \<Rightarrow> char \<Rightarrow> bool list" where
  "stir s c = rotate1 (map (\<lambda>(a, b). a \<noteq> b) (zip s (char_bits c @ True # rev (char_bits c))))"

fun hexchar :: "bool \<Rightarrow> bool \<Rightarrow> bool \<Rightarrow> bool \<Rightarrow> char" where
  "hexchar False False False False = CHR ''0''"
| "hexchar False False False True = CHR ''1''"
| "hexchar False False True False = CHR ''2''"
| "hexchar False False True True = CHR ''3''"
| "hexchar False True False False = CHR ''4''"
| "hexchar False True False True = CHR ''5''"
| "hexchar False True True False = CHR ''6''"
| "hexchar False True True True = CHR ''7''"
| "hexchar True False False False = CHR ''8''"
| "hexchar True False False True = CHR ''9''"
| "hexchar True False True False = CHR ''a''"
| "hexchar True False True True = CHR ''b''"
| "hexchar True True False False = CHR ''c''"
| "hexchar True True False True = CHR ''d''"
| "hexchar True True True False = CHR ''e''"
| "hexchar True True True True = CHR ''f''"

fun nibbles :: "bool list \<Rightarrow> string" where
  "nibbles (a # b # c # d # bs) = hexchar a b c d # nibbles bs"
| "nibbles bs = []"

definition bits_sha256 :: "string \<Rightarrow> string" where
  "bits_sha256 x = (let d = nibbles (foldl stir (replicate 17 False) x)
     in replicate (64 - length d) (CHR ''0'') @ d)"

section \<open>HMAC\_DRBG: results\<close>

lemma generate_loop_terminates:
  assumes "hmac_digest hmac"
  shows "\<exists>v' t. generate_loop hmac key n v temp = Some (v', t) \<and> n \<le> int (length t)"
  using assms
proof (induction "nat (n - int (length temp))" arbitrary: v temp rule: less_induct)
  case less
  show ?case
  proof (cases "int (length temp) < n")
    case True
    have len: "length (hmac key v) = 32" using less.prems by (simp add: hmac_digest_def)
    have "nat (n - int (length (temp @ hmac key v))) < nat (n - int (length temp))"
      using True len by simp
    from less.hyps [OF this less.prems, of "hmac key v"] True
    show ?thesis by (subst generate_loop.simps) simp
  next
    case False
    then show ?thesis by (subst generate_loop.simps) simp
  qed
qed

lemma generate_total:
  assumes "hmac_digest hmac"
  shows "\<exists>r s'. generate hmac s n req = Some (r, s')"
proof -
  obtain v' t where "generate_loop hmac (K s) n (V s) [] = Some (v', t)"
    using generate_loop_terminates [OF assms] by blast
  then show ?thesis by (simp add: generate_def Let_def)
qed

lemma generate_calls_total:
  assumes "hmac_digest hmac"
  shows "\<exists>outs s'. generate_calls hmac s calls = Some (outs, s')"
proof (induction calls arbitrary: s)
  case Nil
  show ?case by simp
next
  case (Cons c cs)
  obtain n req where c: "c = (n, req)" by (cases c)
  obtain r s1 where g: "generate hmac s n req = Some (r, s1)"
    using generate_total [OF assms] by blast
  obtain outs s2 where "generate_calls hmac s1 cs = Some (outs, s2)"
    using Cons.IH by blast
  with c g show ?case by simp
qed

lemma toy_hmac_digest: "hmac_digest toy_hmac"
  by (simp add: hmac_digest_def toy_hmac_def)

lemma HMAC_DRBG_fields:
  "security_strength (HMAC_DRBG hmac entropy personalisation strength) = strength"
  "reseed_counter (HMAC_DRBG hmac entropy personalisation strength) = 1"
  by (simp_all add: HMAC_DRBG_def instantiate_def update_def Let_def)

text \<open>A call that passes the three checks returns bytes and counts one up.\<close>

lemma generate_success:
  assumes "hmac_digest hmac" "num_bytes * 8 \<le> 7500" "req \<le> security_strength s"
    "reseed_counter s < 80001"
  shows "\<exists>out s'. generate hmac s num_bytes req = Some (Inr (Some out), s') \<and>
           length out = nat num_bytes \<and>
           reseed_counter s' = reseed_counter s + 1 \<and>
           security_strength s' = security_strength s"
proof -
  obtain v' t where l: "generate_loop hmac (K s) num_bytes (V s) [] = Some (v', t)"
    and n: "num_bytes \<le> int (length t)"
    using generate_loop_terminates [OF assms(1)] by blast
  from n have "length (take (nat num_bytes) t) = nat num_bytes" by simp
  with l assms(2-4) show ?thesis
    by (simp add: generate_def Let_def update_def)
qed

lemma generate_calls_count:
  assumes "hmac_digest hmac"
    and "reseed_counter s + int (length calls) \<le> 80001"
    and "\<forall>(n, req) \<in> set calls. n * 8 \<le> 7500 \<and> req \<le> security_strength s"
  shows "\<exists>outs s'. generate_calls hmac s calls = Some (outs, s') \<and>
           reseed_counter s' = reseed_counter s + int (length calls) \<and>
           security_strength s' = security_strength s \<and>
           (\<forall>r \<in> set outs. \<exists>out. r = Inr (Some out))"
  using assms(2,3)
proof (induction calls arbitrary: s)
  case Nil
  then show ?case by simp
next
  case (Cons c cs)
  obtain n req where c: "c = (n, req)" by (cases c)
  from Cons.prems c have v: "n * 8 \<le> 7500" "req \<le> security_strength s" by auto
  have cnt: "reseed_counter s < 80001" using Cons.prems(1) by simp
  obtain out s1 where g: "generate hmac s n req = Some (Inr (Some out), s1)"
    and s1: "reseed_counter s1 = reseed_counter s + 1" "security_strength s1 = security_strength s"
    using generate_success [OF assms(1) v cnt] by blast
  have p1: "reseed_counter s1 + int (length cs) \<le> 80001"
    using Cons.prems(1) s1 by simp
  have p2: "\<forall>(n, req) \<in> set cs. n * 8 \<le> 7500 \<and> req \<le> security_strength s1"
    using Cons.prems(2) s1 by simp
  obtain outs s2 where r: "generate_calls hmac s1 cs = Some (outs, s2)"
    "reseed_counter s2 = reseed_counter s1 + int (length cs)"
    "security_strength s2 = security_strength s1"
    "\<forall>r \<in> set outs. \<exists>out. r = Inr (Some out)"
    using Cons.IH [OF p1 p2] by blast
  with g s1 c show ?case by simp
qed

text \<open>
  Claim C10. Every failing call of \<open>generate\<close> leaves the instance as it was: more than
  7500 bits requested raises RuntimeError, a requested strength above the instance's raises
  RuntimeError, a reseed counter at or past 80001 returns \<open>None\<close>, each with \<open>K\<close>,
  \<open>V\<close> and \<open>reseed_counter\<close> (the whole instance) unchanged; and whenever a call
  returns something other than output bytes, the instance is unchanged.
\<close>

theorem generate_fails_atomically:
  "(num_bytes * 8 > 7500 \<longrightarrow> generate hmac s num_bytes req = Some (Inl RuntimeError, s)) \<and>
   (req > security_strength s \<longrightarrow> generate hmac s num_bytes req = Some (Inl RuntimeError, s)) \<and>
   (num_bytes * 8 \<le> 7500 \<and> req \<le> security_strength s \<and> reseed_counter s \<ge> 80001 \<longrightarrow>
      generate hmac s num_bytes req = Some (Inr None, s)) \<and>
   (\<forall>r s'. generate hmac s num_bytes req = Some (r, s') \<and> (\<forall>out. r \<noteq> Inr (Some out)) \<longrightarrow> s' = s)"
  by (auto simp: generate_def Let_def split: option.splits if_splits)

theorem generate_fails_atomically_witness:
  "generate toy_hmac drbg0 938 256 = Some (Inl RuntimeError, drbg0) \<and>
   generate toy_hmac drbg0 32 257 = Some (Inl RuntimeError, drbg0) \<and>
   generate toy_hmac (drbg0\<lparr>reseed_counter := 80001\<rparr>) 32 256
     = Some (Inr None, drbg0\<lparr>reseed_counter := 80001\<rparr>)"
proof -
  have a: "(7500::int) < 938 * 8" by simp
  have b: "security_strength drbg0 < 257" by (simp add: drbg0_def HMAC_DRBG_fields)
  have c: "(32::int) * 8 \<le> 7500 \<and> 256 \<le> security_strength (drbg0\<lparr>reseed_counter := 80001\<rparr>)
           \<and> 80001 \<le> reseed_counter (drbg0\<lparr>reseed_counter := 80001\<rparr>)"
    by (simp add: drbg0_def HMAC_DRBG_fields)
  show ?thesis
    using generate_fails_atomically [where num_bytes = 938 and hmac = toy_hmac and s = drbg0 and req = 256] a
      generate_fails_atomically [where num_bytes = 32 and hmac = toy_hmac and s = drbg0 and req = 257] b
      generate_fails_atomically [where num_bytes = 32 and hmac = toy_hmac
        and s = "drbg0\<lparr>reseed_counter := 80001\<rparr>" and req = 256] c
    by blast
qed

text \<open>
  Claim C8. Once the reseed counter is at 80001 or beyond (so also once it exceeds 80001),
  \<open>generate\<close> returns \<open>None\<close> for every valid \<open>num_bytes\<close> and requested strength and
  leaves the instance unchanged; so every later call returns \<open>None\<close> too, whatever the
  sequence of valid calls. \<open>generate\<close> never calls \<open>reseed\<close>.
\<close>

theorem exhausted_forever:
  assumes "80001 \<le> reseed_counter s"
    and "\<forall>(num_bytes, req) \<in> set calls. num_bytes * 8 \<le> 7500 \<and> req \<le> security_strength s"
  shows "generate_calls hmac s calls = Some (map (\<lambda>c. Inr None) calls, s)"
  using assms(2)
proof (induction calls)
  case Nil
  show ?case by simp
next
  case (Cons c cs)
  obtain n req where c: "c = (n, req)" by (cases c)
  from Cons.prems c have v: "n * 8 \<le> 7500" "req \<le> security_strength s" by auto
  have g: "generate hmac s n req = Some (Inr None, s)"
    using v assms(1) by (simp add: generate_def)
  from Cons.prems have "\<forall>(num_bytes, req) \<in> set cs. num_bytes * 8 \<le> 7500 \<and> req \<le> security_strength s"
    by simp
  from Cons.IH [OF this] g c show ?case by simp
qed

theorem exhausted_forever_witness:
  "generate_calls toy_hmac (drbg0\<lparr>reseed_counter := 80001\<rparr>) [(32, 256), (48, 128), (0, 256)]
     = Some ([Inr None, Inr None, Inr None], drbg0\<lparr>reseed_counter := 80001\<rparr>)"
proof -
  have a: "80001 \<le> reseed_counter (drbg0\<lparr>reseed_counter := 80001\<rparr>)" by simp
  have b: "\<forall>(num_bytes, req) \<in> set [(32::int, 256), (48, 128), (0, 256)].
             num_bytes * 8 \<le> 7500 \<and> req \<le> security_strength (drbg0\<lparr>reseed_counter := 80001\<rparr>)"
    by (simp add: drbg0_def HMAC_DRBG_fields)
  show ?thesis using exhausted_forever [OF a b, of toy_hmac] by simp
qed

lemma generate_strength_irrelevant:
  assumes "K s1 = K s2" "V s1 = V s2" "reseed_counter s1 = reseed_counter s2"
    and "(req > security_strength s1) = (req > security_strength s2)"
  shows "map_option (\<lambda>(r, s). (r, K s, V s, reseed_counter s)) (generate hmac s1 n req)
       = map_option (\<lambda>(r, s). (r, K s, V s, reseed_counter s)) (generate hmac s2 n req)"
  using assms
  by (auto simp: generate_def Let_def update_def split: option.splits)

lemma generate_strength_kept:
  "generate hmac s n req = Some (r, s') \<Longrightarrow> security_strength s' = security_strength s"
  by (auto simp: generate_def Let_def update_def split: option.splits if_splits)

lemma generate_calls_strength_irrelevant:
  assumes "K s1 = K s2" "V s1 = V s2" "reseed_counter s1 = reseed_counter s2"
    and "\<forall>(n, req) \<in> set calls. (req > security_strength s1) = (req > security_strength s2)"
  shows "map_option (\<lambda>(outs, s). (outs, K s, V s, reseed_counter s)) (generate_calls hmac s1 calls)
       = map_option (\<lambda>(outs, s). (outs, K s, V s, reseed_counter s)) (generate_calls hmac s2 calls)"
  using assms
proof (induction calls arbitrary: s1 s2)
  case Nil
  then show ?case by simp
next
  case (Cons c cs)
  obtain n req where c: "c = (n, req)" by (cases c)
  from Cons.prems(4) c have iff: "(req > security_strength s1) = (req > security_strength s2)"
    by simp
  note one = generate_strength_irrelevant [OF Cons.prems(1-3) iff, of hmac n]
  show ?case
  proof (cases "generate hmac s1 n req")
    case None
    with one have "generate hmac s2 n req = None" by simp
    with None c show ?thesis by simp
  next
    case (Some a)
    obtain r t1 where a: "a = (r, t1)" by (cases a)
    from one Some a obtain t2 where g2: "generate hmac s2 n req = Some (r, t2)"
      and eq: "K t1 = K t2" "V t1 = V t2" "reseed_counter t1 = reseed_counter t2"
      by (cases "generate hmac s2 n req") auto
    have st: "security_strength t1 = security_strength s1" "security_strength t2 = security_strength s2"
      using Some a g2 generate_strength_kept by blast+
    have "\<forall>(n, req) \<in> set cs. (req > security_strength t1) = (req > security_strength t2)"
      using Cons.prems(4) st by simp
    from Cons.IH [OF eq this] Some a g2 c show ?thesis
      by (cases "generate_calls hmac t1 cs"; cases "generate_calls hmac t2 cs") auto
  qed
qed

text \<open>
  Claim C9. Two instances made from the same entropy and personalisation string, given the
  same sequence of \<open>generate\<close> calls, return the same sequence of results and end with
  the same \<open>K\<close>, \<open>V\<close> and \<open>reseed_counter\<close>. The security strengths of the two
  instances may even differ, as long as each call's requested strength passes or fails the
  strength check on both; with a 32-byte HMAC every call returns.
\<close>

theorem drbg_deterministic:
  assumes "\<forall>(num_bytes, req) \<in> set calls. (req > strength1) = (req > strength2)"
  shows "map_option (\<lambda>(outs, s). (outs, K s, V s, reseed_counter s))
           (generate_calls hmac (HMAC_DRBG hmac entropy personalisation strength1) calls)
       = map_option (\<lambda>(outs, s). (outs, K s, V s, reseed_counter s))
           (generate_calls hmac (HMAC_DRBG hmac entropy personalisation strength2) calls)
     \<and> (hmac_digest hmac \<longrightarrow>
          generate_calls hmac (HMAC_DRBG hmac entropy personalisation strength1) calls \<noteq> None)"
proof
  show "map_option (\<lambda>(outs, s). (outs, K s, V s, reseed_counter s))
           (generate_calls hmac (HMAC_DRBG hmac entropy personalisation strength1) calls)
       = map_option (\<lambda>(outs, s). (outs, K s, V s, reseed_counter s))
           (generate_calls hmac (HMAC_DRBG hmac entropy personalisation strength2) calls)"
    by (rule generate_calls_strength_irrelevant)
       (use assms in \<open>simp_all add: HMAC_DRBG_def instantiate_def update_def Let_def\<close>)
  show "hmac_digest hmac \<longrightarrow>
          generate_calls hmac (HMAC_DRBG hmac entropy personalisation strength1) calls \<noteq> None"
    using generate_calls_total by fastforce
qed

theorem drbg_deterministic_witness:
  "map_option (\<lambda>(outs, s). (outs, K s, V s, reseed_counter s))
     (generate_calls toy_hmac (HMAC_DRBG toy_hmac ''seed'' ''pers'' 256) [(3, 256), (2, 128)])
   = map_option (\<lambda>(outs, s). (outs, K s, V s, reseed_counter s))
     (generate_calls toy_hmac (HMAC_DRBG toy_hmac ''seed'' ''pers'' 384) [(3, 256), (2, 128)])
   \<and> generate_calls toy_hmac (HMAC_DRBG toy_hmac ''seed'' ''pers'' 256) [(3, 256), (2, 128)] \<noteq> None"
proof -
  have a: "\<forall>(num_bytes, req) \<in> set [(3::int, 256::int), (2, 128)]. (req > 256) = (req > (384::int))"
    by simp
  show ?thesis
    using drbg_deterministic [OF a, of toy_hmac "''seed''" "''pers''"] toy_hmac_digest
    by blast
qed

section \<open>Chain functions: results\<close>

lemma bind_err_simps [simp]:
  "bind_err (Inl e) f = Inl e"
  "bind_err (Inr v) f = f v"
  by (simp_all add: bind_err_def)

lemma bind_err_assoc:
  "bind_err (bind_err m f) g = bind_err m (\<lambda>v. bind_err (f v) g)"
  by (cases m) simp_all

lemma bind_err_Inr_iff:
  "bind_err m f = Inr w \<longleftrightarrow> (\<exists>v. m = Inr v \<and> f v = Inr w)"
  by (cases m) simp_all

lemma chain_loop_append:
  "chain_loop sha256 r k (ys @ zs) x =
     bind_err (chain_loop sha256 r k ys x) (chain_loop sha256 r k zs)"
proof (induction ys arbitrary: x)
  case Nil
  show ?case by simp
next
  case (Cons y ys)
  show ?case
    by (cases "chain_step sha256 r k x y") (simp_all add: Cons.IH)
qed

lemma upto_0_14_split:
  assumes "1 \<le> s" "s \<le> 15"
  shows "[0..14] = [0..s - 1] @ [s..14]"
  using upto_split2 [of 0 "s - 1" 14] assms by simp

lemma digits16_hex:
  "\<forall>c \<in> set s. digit16 c \<noteq> None \<Longrightarrow> \<exists>n. digits16 acc s = Some n"
  by (induction s arbitrary: acc) auto

lemma digit16_not_space: "digit16 c \<noteq> None \<Longrightarrow> \<not> is_space c"
  by (auto simp: digit16_def is_space_def Let_def split: if_splits)

lemma digit16_not_sign: "digit16 c \<noteq> None \<Longrightarrow> c \<noteq> CHR ''-'' \<and> c \<noteq> CHR ''+'' \<and> c \<noteq> CHR ''x'' \<and> c \<noteq> CHR ''X''"
  by (auto simp: digit16_def Let_def split: if_splits)

lemma py_int16_hex:
  assumes "hex_string s"
  shows "\<exists>n. py_int16 s = Inr (int n)"
proof -
  from assms have ne: "s \<noteq> []" and all: "\<forall>c \<in> set s. digit16 c \<noteq> None"
    by (simp_all add: hex_string_def)
  have nospace: "\<forall>c \<in> set s. \<not> is_space c" using all digit16_not_space by blast
  have d1: "dropWhile is_space s = s"
    using ne nospace by (cases s) simp_all
  have d2: "dropWhile is_space (rev s) = rev s"
    using ne nospace by (cases "rev s") (auto simp: )
  obtain c cs where s: "s = c # cs" using ne by (cases s) auto
  have c: "c \<noteq> CHR ''-''" "c \<noteq> CHR ''+''" using all s digit16_not_sign by auto
  obtain n where n: "digits16 0 s = Some n" using digits16_hex [OF all] by blast
  have "py_int16 s = Inr (int n)"
  proof (cases cs)
    case Nil
    with s c n show ?thesis
      unfolding py_int16_def d1 d2 rev_rev_ident Let_def by simp
  next
    case (Cons c2 cs2)
    have "c2 \<noteq> CHR ''x''" "c2 \<noteq> CHR ''X''"
      using all s Cons digit16_not_sign by auto
    with Cons s c n show ?thesis
      unfolding py_int16_def d1 d2 rev_rev_ident Let_def by simp
  qed
  then show ?thesis by blast
qed

lemma digit16_hexchars: "c \<in> set ''0123456789abcdef'' \<Longrightarrow> digit16 c \<noteq> None"
  by (auto simp: digit16_def)

lemma hexdigest_hex_string:
  assumes "hexdigest sha256"
  shows "hex_string (sha256 x)"
proof -
  have len: "length (sha256 x) = 64" and sub: "set (sha256 x) \<subseteq> set ''0123456789abcdef''"
    using assms by (simp_all add: hexdigest_def)
  from len have "sha256 x \<noteq> []" by auto
  moreover have "\<forall>c \<in> set (sha256 x). digit16 c \<noteq> None"
    using sub digit16_hexchars by blast
  ultimately show ?thesis by (simp add: hex_string_def)
qed

lemma chain_step_ok:
  assumes "hexdigest sha256" "hex_string x" "0 \<le> y" "y < int (length r)" "\<forall>e \<in> set r. hex_string e"
  shows "\<exists>v. chain_step sha256 r k x y = Inr v \<and> hex_string v"
proof -
  obtain a where a: "py_int16 x = Inr (int a)" using py_int16_hex [OF assms(2)] by blast
  have ry: "py_nth r y = Inr (r ! nat y)" using assms(3,4) by (simp add: py_nth_def)
  have "r ! nat y \<in> set r" using assms(3,4) by simp
  then obtain b where b: "py_int16 (r ! nat y) = Inr (int b)"
    using py_int16_hex assms(5) by blast
  show ?thesis
    using a ry b hexdigest_hex_string [OF assms(1)] by (simp add: chain_step_def fn_k_def)
qed

lemma chain_loop_ok:
  assumes "hexdigest sha256" "\<forall>e \<in> set r. hex_string e"
    and "\<forall>y \<in> set ys. 0 \<le> y \<and> y < int (length r)" "hex_string x"
  shows "\<exists>v. chain_loop sha256 r k ys x = Inr v \<and> hex_string v"
  using assms(3,4)
proof (induction ys arbitrary: x)
  case Nil
  then show ?case by simp
next
  case (Cons y ys)
  obtain v where v: "chain_step sha256 r k x y = Inr v" "hex_string v"
    using chain_step_ok [OF assms(1) Cons.prems(2) _ _ assms(2), of y k] Cons.prems(1) by auto
  from Cons.IH [OF _ v(2)] Cons.prems(1) v(1) show ?case by simp
qed

lemma chain_fn_resume:
  assumes "0 \<le> s" "s \<le> 15"
  shows "bind_err (chain_fn sha256 x r s k) (\<lambda>v. chain_fn2 sha256 v r s k) = chain_fn sha256 x r 15 k"
proof (cases "s = 0")
  case True
  then show ?thesis by (simp add: chain_fn_def chain_fn2_def)
next
  case False
  with assms have "1 \<le> s" by simp
  from upto_0_14_split [OF this assms(2)] False show ?thesis
    by (simp add: chain_fn_def chain_fn2_def chain_loop_append)
qed

text \<open>
  Claim C2. For \<open>0 \<le> s \<le> 15\<close>, chaining \<open>s\<close> steps with \<open>chain_fn\<close> and resuming
  from step \<open>s\<close> with \<open>chain_fn2\<close> is chaining all 15 steps with \<open>chain_fn\<close>: the two
  sides are the same value, or the same exception; zero steps return \<open>x\<close> unchanged; and
  for a hexadecimal \<open>x\<close>, at least 15 hexadecimal randomizers and a hash that returns hex
  digests, no exception is raised and both sides are the same string.
\<close>

theorem chain_resume:
  assumes "0 \<le> s" "s \<le> 15"
  shows "bind_err (chain_fn sha256 x r s k) (\<lambda>v. chain_fn2 sha256 v r s k) = chain_fn sha256 x r 15 k
       \<and> chain_fn sha256 x r 0 k = Inr x
       \<and> (hexdigest sha256 \<and> hex_string x \<and> 15 \<le> length r \<and> (\<forall>e \<in> set r. hex_string e) \<longrightarrow>
            (\<exists>v w. chain_fn sha256 x r s k = Inr v \<and> chain_fn2 sha256 v r s k = Inr w
                   \<and> chain_fn sha256 x r 15 k = Inr w))"
proof (intro conjI impI)
  show eq: "bind_err (chain_fn sha256 x r s k) (\<lambda>v. chain_fn2 sha256 v r s k) = chain_fn sha256 x r 15 k"
    using assms by (rule chain_fn_resume)
  show "chain_fn sha256 x r 0 k = Inr x" by (simp add: chain_fn_def)
  assume wf: "hexdigest sha256 \<and> hex_string x \<and> 15 \<le> length r \<and> (\<forall>e \<in> set r. hex_string e)"
  have "\<forall>y \<in> set [0..s - 1]. 0 \<le> y \<and> y < int (length r)" using assms wf by auto
  then obtain v where v: "chain_loop sha256 r k [0..s - 1] x = Inr v" "hex_string v"
    using chain_loop_ok [of sha256 r "[0..s - 1]" x k] wf by blast
  have v': "chain_fn sha256 x r s k = Inr (if s = 0 then x else v)"
    using v by (simp add: chain_fn_def)
  have hv: "hex_string (if s = 0 then x else v)" using v wf by simp
  have "\<forall>y \<in> set [s..14]. 0 \<le> y \<and> y < int (length r)" using assms wf by auto
  then obtain w where w: "chain_loop sha256 r k [s..14] (if s = 0 then x else v) = Inr w"
    using chain_loop_ok [of sha256 r "[s..14]" "if s = 0 then x else v" k] wf hv by blast
  then have w': "chain_fn2 sha256 (if s = 0 then x else v) r s k = Inr w"
    by (simp add: chain_fn2_def)
  from eq v' w' have "chain_fn sha256 x r 15 k = Inr w" by simp
  with v' w' show "\<exists>v w. chain_fn sha256 x r s k = Inr v \<and> chain_fn2 sha256 v r s k = Inr w
                   \<and> chain_fn sha256 x r 15 k = Inr w" by blast
qed

section \<open>The stand-in hash returns hex digests\<close>

lemma hex_of_nat_chars: "set (hex_of_nat n) \<subseteq> set ''0123456789abcdef''"
proof -
  define hs where "hs = ''0123456789abcdef''"
  have len: "length hs = 16" by (simp add: hs_def)
  have eq: "hex_of_nat n = (if n < 16 then [hs ! n] else hex_of_nat (n div 16) @ [hs ! (n mod 16)])" for n
    unfolding hs_def by (rule hex_of_nat.simps)
  have "set (hex_of_nat n) \<subseteq> set hs"
  proof (induction n rule: hex_of_nat.induct)
    case (1 n)
    show ?case
    proof (cases "n < 16")
      case True
      then have "hs ! n \<in> set hs" using len by simp
      with True show ?thesis by (subst eq) simp
    next
      case False
      have "hs ! (n mod 16) \<in> set hs" using len by simp
      with False "1.IH" show ?thesis by (subst eq) simp
    qed
  qed
  then show ?thesis by (simp only: hs_def)
qed

lemma hex_of_nat_length: "n < 16 ^ k \<Longrightarrow> 0 < k \<Longrightarrow> length (hex_of_nat n) \<le> k"
proof (induction k arbitrary: n)
  case 0
  then show ?case by simp
next
  case (Suc k)
  show ?case
  proof (cases "n < 16")
    case True
    then show ?thesis by (subst hex_of_nat.simps) simp
  next
    case False
    with Suc.prems have k: "0 < k" by (cases k) auto
    have "n div 16 < 16 ^ k" using Suc.prems(1) by (simp add: less_mult_imp_div_less mult.commute)
    from Suc.IH [OF this k] False show ?thesis by (subst hex_of_nat.simps) simp
  qed
qed

lemma hex64_digest:
  assumes "n < 16 ^ 64"
  shows "length (hex64 n) = 64 \<and> set (hex64 n) \<subseteq> set ''0123456789abcdef''"
proof -
  define hs where "hs = ''0123456789abcdef''"
  have z: "CHR ''0'' \<in> set hs" by (simp add: hs_def)
  have len: "length (hex_of_nat n) \<le> 64" using assms by (rule hex_of_nat_length) simp
  have "set (hex_of_nat n) \<subseteq> set hs" unfolding hs_def by (rule hex_of_nat_chars)
  with z have "set (hex64 n) \<subseteq> set hs" by (auto simp: hex64_def Let_def)
  then have "set (hex64 n) \<subseteq> set ''0123456789abcdef''" by (simp only: hs_def)
  moreover have "length (hex64 n) = 64" using len by (simp add: hex64_def Let_def)
  ultimately show ?thesis by blast
qed

lemma toy_sha256_hexdigest: "hexdigest toy_sha256"
proof -
  define hs where "hs = ''0123456789abcdef''"
  have len: "length hs = 16" and z: "CHR ''0'' \<in> set hs" by (simp_all add: hs_def)
  have d: "hs ! nat (a mod 16) \<in> set hs" for a :: int
    using len by (intro nth_mem) simp
  have "length (toy_sha256 x) = 64 \<and> set (toy_sha256 x) \<subseteq> set hs" for x
    unfolding toy_sha256_def Let_def hs_def [symmetric] using z d by auto
  then show ?thesis by (simp add: hexdigest_def hs_def)
qed

lemma hex64_hex_string: "n < 16 ^ 64 \<Longrightarrow> hex_string (hex64 n)"
proof -
  assume "n < 16 ^ 64"
  from hex64_digest [OF this] have l: "length (hex64 n) = 64"
    and s: "set (hex64 n) \<subseteq> set ''0123456789abcdef''" by simp_all
  from l have "hex64 n \<noteq> []" by auto
  moreover have "\<forall>c \<in> set (hex64 n). digit16 c \<noteq> None" using s digit16_hexchars by blast
  ultimately show ?thesis by (simp add: hex_string_def)
qed

theorem chain_resume_witness:
  "bind_err (chain_fn toy_sha256 (hex64 31) (map hex64 [1..<16]) 5 (hex64 7))
      (\<lambda>v. chain_fn2 toy_sha256 v (map hex64 [1..<16]) 5 (hex64 7))
     = chain_fn toy_sha256 (hex64 31) (map hex64 [1..<16]) 15 (hex64 7)
   \<and> (\<exists>v w. chain_fn toy_sha256 (hex64 31) (map hex64 [1..<16]) 5 (hex64 7) = Inr v
          \<and> chain_fn2 toy_sha256 v (map hex64 [1..<16]) 5 (hex64 7) = Inr w
          \<and> chain_fn toy_sha256 (hex64 31) (map hex64 [1..<16]) 15 (hex64 7) = Inr w)"
proof -
  have s: "(0::int) \<le> 5" "(5::int) \<le> 15" by simp_all
  have x: "hex_string (hex64 31)" by (rule hex64_hex_string) simp
  have r: "\<forall>e \<in> set (map hex64 [1..<16]). hex_string e"
  proof
    fix e assume "e \<in> set (map hex64 [1..<16])"
    then obtain i where "e = hex64 i" "i < 16" by auto
    then show "hex_string e" using hex64_hex_string [of i] by simp
  qed
  have l: "15 \<le> length (map hex64 [1..<16])" by simp
  show ?thesis
    using chain_resume [OF s, of toy_sha256 "hex64 31" "map hex64 [1..<16]" "hex64 7"]
      toy_sha256_hexdigest x r l
    by blast
qed

section \<open>Merkle tree construction: results\<close>

lemma nth_err_simps [simp]:
  "i < length xs \<Longrightarrow> nth_err xs i = Inr (xs ! i)"
  "length xs \<le> i \<Longrightarrow> nth_err xs i = Inl IndexError"
  by (simp_all add: nth_err_def)

lemma layer_loop_paired:
  assumes "y \<le> length xs" "n = (length xs - y + 1) div 2"
  shows "layer_loop sha256 xs n y temp = Inr (temp @ paired_layer sha256 (drop y xs))"
  using assms
proof (induction n arbitrary: y temp)
  case 0
  then have "drop y xs = []" by simp
  then show ?case by simp
next
  case (Suc n)
  from Suc.prems have lt: "y < length xs" by (cases "y = length xs") auto
  show ?case
  proof (cases "y + 1 = length xs")
    case True
    then have d: "drop y xs = [xs ! y]"
      by (metis Cons_nth_drop_Suc Suc_eq_plus1 drop_all lt order_refl)
    from True Suc.prems have "n = 0" by simp
    with True lt d show ?thesis by simp
  next
    case False
    with lt have lt2: "y + 1 < length xs" by simp
    have d: "drop y xs = xs ! y # xs ! (y + 1) # drop (y + 2) xs"
      using lt lt2 by (metis Cons_nth_drop_Suc Suc_eq_plus1 add_2_eq_Suc')
    have n: "n = (length xs - (y + 2) + 1) div 2" using Suc.prems lt2 by simp
    have "y + 2 \<le> length xs" using lt2 by simp
    from Suc.IH [OF this n] False lt lt2 d show ?thesis by simp
  qed
qed

lemma next_layer_paired: "next_layer sha256 xs = Inr (paired_layer sha256 xs)"
proof -
  have "length xs mod 2 + length xs div 2 = (length xs - 0 + 1) div 2" by presburger
  then show ?thesis
    using layer_loop_paired [of 0 xs _ sha256 "[]"] by (simp add: next_layer_def)
qed

lemma tree_loop_layers:
  "tree_loop sha256 n (tr, xs, t) =
     Inr (tr @ layers_above sha256 n xs, last (xs # layers_above sha256 n xs),
          last (t # layers_above sha256 n xs))"
proof (induction n arbitrary: tr xs t)
  case 0
  show ?case by simp
next
  case (Suc n)
  show ?case by (simp add: next_layer_paired Suc.IH)
qed

lemma length_paired_layer: "length (paired_layer sha256 xs) = (length xs + 1) div 2"
  by (induction sha256 xs rule: paired_layer.induct) simp_all

lemma paired_layer_nth:
  "2 * p + 1 < length xs \<Longrightarrow> paired_layer sha256 xs ! p = sha256 (xs ! (2 * p) @ xs ! (2 * p + 1))"
proof (induction sha256 xs arbitrary: p rule: paired_layer.induct)
  case (3 sha256 a b xs)
  then show ?case by (cases p) simp_all
qed simp_all

lemma paired_layer_carry:
  "odd (length xs) \<Longrightarrow> paired_layer sha256 xs ! (length xs div 2) = xs ! (length xs - 1)"
proof (induction sha256 xs rule: paired_layer.induct)
  case (3 sha256 a b xs)
  then have "xs \<noteq> []" by auto
  with 3 show ?case by (simp add: nth_Cons')
qed simp_all

lemma length_layers_above [simp]: "length (layers_above sha256 n xs) = n"
  by (induction n arbitrary: xs) simp_all

lemma layers_above_nth:
  "j < n \<Longrightarrow> (xs # layers_above sha256 n xs) ! Suc j
     = paired_layer sha256 ((xs # layers_above sha256 n xs) ! j)"
proof (induction n arbitrary: xs j)
  case 0
  then show ?case by simp
next
  case (Suc n)
  show ?case
  proof (cases j)
    case 0
    then show ?thesis by simp
  next
    case (Suc i)
    with Suc.prems have "i < n" by simp
    from Suc.IH [OF this, of "paired_layer sha256 xs"] Suc show ?thesis by simp
  qed
qed

lemma length_last_layer:
  "xs \<noteq> [] \<Longrightarrow> length xs \<le> 2 ^ n \<Longrightarrow> length (last (xs # layers_above sha256 n xs)) = 1"
proof (induction n arbitrary: xs)
  case 0
  then show ?case by (cases xs) simp_all
next
  case (Suc n)
  have "0 < length (paired_layer sha256 xs)"
    using Suc.prems(1) by (cases xs) (simp_all add: length_paired_layer)
  then have ne: "paired_layer sha256 xs \<noteq> []" by auto
  have "length (paired_layer sha256 xs) \<le> 2 ^ n"
    using Suc.prems(2) by (simp add: length_paired_layer)
  from Suc.IH [OF ne this] show ?case by simp
qed

lemma branches_for_table:
  assumes "n \<le> 512"
  shows "\<exists>nb. branches_for n = Inr nb \<and> 1 \<le> nb \<and> nb \<le> 9 \<and> n \<le> 2 ^ nb \<and> (2 < n \<longrightarrow> 2 ^ (nb - 1) < n)"
  using assms by (auto simp: branches_for_def)


lemma create_tree_layers:
  assumes "num_leaves m = length (base m)" "length (base m) \<le> 512"
  shows "\<exists>nb. branches_for (length (base m)) = Inr nb \<and>
           create_tree sha256 m =
             Inr (m\<lparr>num_branches := nb,
                    tree := tree m @ base m # layers_above sha256 nb (base m),
                    root := last (base m # layers_above sha256 nb (base m)),
                    height := length (tree m) + nb + 1\<rparr>)"
proof -
  obtain nb where nb: "branches_for (length (base m)) = Inr nb" "1 \<le> nb"
    using branches_for_table [OF assms(2)] by blast
  then have "last ([] # layers_above sha256 nb (base m)) = last (base m # layers_above sha256 nb (base m))"
    by (cases nb) simp_all
  with nb show ?thesis
    by (simp add: create_tree_def assms(1) tree_loop_layers)
qed

text \<open>
  Claim C7. For a non-empty base of at most 512 leaves, \<open>create_tree\<close> returns; the
  number of iterations \<open>num_branches\<close> is the value of the lookup table (the least
  \<open>nb \<ge> 1\<close> with at most \<open>2 ^ nb\<close> leaves); the tree has \<open>num_branches + 1\<close> layers,
  the first of them the base; every later layer has length \<open>ceil(len(previous) / 2)\<close>, its
  element \<open>p\<close> is the hash of the concatenation of elements \<open>2p\<close> and \<open>2p + 1\<close> of the
  previous layer, and the last element of a previous layer of odd length is carried over
  unchanged; the root is the last layer, and it has one element.
\<close>

theorem create_tree_invariant:
  assumes "base m \<noteq> []" "length (base m) \<le> 512"
    and "num_leaves m = length (base m)" "tree m = []"
  shows "\<exists>m' nb. create_tree sha256 m = Inr m' \<and> branches_for (length (base m)) = Inr nb \<and>
           1 \<le> nb \<and> length (base m) \<le> 2 ^ nb \<and> (2 < length (base m) \<longrightarrow> 2 ^ (nb - 1) < length (base m)) \<and>
           num_branches m' = nb \<and> length (tree m') = nb + 1 \<and> height m' = nb + 1 \<and>
           tree m' ! 0 = base m \<and>
           (\<forall>j < nb.
              length (tree m' ! (j + 1)) = (length (tree m' ! j) + 1) div 2 \<and>
              (\<forall>p. 2 * p + 1 < length (tree m' ! j) \<longrightarrow>
                 tree m' ! (j + 1) ! p = sha256 (tree m' ! j ! (2 * p) @ tree m' ! j ! (2 * p + 1))) \<and>
              (odd (length (tree m' ! j)) \<longrightarrow>
                 tree m' ! (j + 1) ! (length (tree m' ! j) div 2)
                   = tree m' ! j ! (length (tree m' ! j) - 1))) \<and>
           root m' = tree m' ! nb \<and> length (root m') = 1"
proof -
  obtain nb where nb: "branches_for (length (base m)) = Inr nb" "1 \<le> nb"
    "length (base m) \<le> 2 ^ nb" "2 < length (base m) \<longrightarrow> 2 ^ (nb - 1) < length (base m)"
    using branches_for_table [OF assms(2)] by blast
  define ls where "ls = base m # layers_above sha256 nb (base m)"
  define m' where "m' = m\<lparr>num_branches := nb, tree := ls, root := last ls, height := nb + 1\<rparr>"
  have ct: "create_tree sha256 m = Inr m'"
    using create_tree_layers [OF assms(3,2), of sha256] nb(1) assms(4)
    by (simp add: m'_def ls_def)
  have len: "length ls = nb + 1" by (simp add: ls_def)
  have step: "ls ! (j + 1) = paired_layer sha256 (ls ! j)" if "j < nb" for j
    using layers_above_nth [OF that, of "base m" sha256] by (simp add: ls_def)
  have lay: "length (ls ! (j + 1)) = (length (ls ! j) + 1) div 2 \<and>
      (\<forall>p. 2 * p + 1 < length (ls ! j) \<longrightarrow>
         ls ! (j + 1) ! p = sha256 (ls ! j ! (2 * p) @ ls ! j ! (2 * p + 1))) \<and>
      (odd (length (ls ! j)) \<longrightarrow> ls ! (j + 1) ! (length (ls ! j) div 2) = ls ! j ! (length (ls ! j) - 1))"
    if "j < nb" for j
    unfolding step [OF that]
    by (simp add: length_paired_layer paired_layer_nth paired_layer_carry)
  have rt: "last ls = ls ! nb" using len by (metis add_diff_cancel_right' last_conv_nth length_0_conv add_is_0 zero_neq_one)
  have r1: "length (last ls) = 1"
    unfolding ls_def using length_last_layer [OF assms(1) nb(3)] .
  show ?thesis
    using ct nb lay rt r1 len by (auto simp: m'_def ls_def)
qed

theorem create_tree_invariant_witness:
  "\<exists>m' nb. create_tree toy_sha256 (merkle_init [''a'', ''b'', ''c'']) = Inr m' \<and>
      branches_for (length [''a'', ''b'', ''c'']) = Inr nb \<and>
      1 \<le> nb \<and> length [''a'', ''b'', ''c''] \<le> 2 ^ nb \<and>
      (2 < length [''a'', ''b'', ''c''] \<longrightarrow> 2 ^ (nb - 1) < length [''a'', ''b'', ''c'']) \<and>
      num_branches m' = nb \<and> length (tree m') = nb + 1 \<and> height m' = nb + 1 \<and>
      tree m' ! 0 = [''a'', ''b'', ''c''] \<and>
      (\<forall>j < nb.
         length (tree m' ! (j + 1)) = (length (tree m' ! j) + 1) div 2 \<and>
         (\<forall>p. 2 * p + 1 < length (tree m' ! j) \<longrightarrow>
            tree m' ! (j + 1) ! p = toy_sha256 (tree m' ! j ! (2 * p) @ tree m' ! j ! (2 * p + 1))) \<and>
         (odd (length (tree m' ! j)) \<longrightarrow>
            tree m' ! (j + 1) ! (length (tree m' ! j) div 2)
              = tree m' ! j ! (length (tree m' ! j) - 1))) \<and>
      root m' = tree m' ! nb \<and> length (root m') = 1"
proof -
  have a: "base (merkle_init [''a'', ''b'', ''c'']) \<noteq> []"
    "length (base (merkle_init [''a'', ''b'', ''c''])) \<le> 512"
    "num_leaves (merkle_init [''a'', ''b'', ''c'']) = length (base (merkle_init [''a'', ''b'', ''c'']))"
    "tree (merkle_init [''a'', ''b'', ''c'']) = []"
    by (simp_all add: merkle_init_def)
  have b: "base (merkle_init [''a'', ''b'', ''c'']) = [''a'', ''b'', ''c'']"
    by (simp add: merkle_init_def)
  show ?thesis
    using create_tree_invariant [OF a, of toy_sha256] unfolding b .
qed

section \<open>Winternitz OTS: results\<close>

lemma unhexlify_hex:
  "\<forall>c \<in> set s. digit16 c \<noteq> None \<Longrightarrow> even (length s) \<Longrightarrow>
     \<exists>b. unhexlify s = Inr b \<and> 2 * length b = length s"
proof (induction s rule: unhexlify.induct)
  case 1
  show ?case by simp
next
  case (2 a)
  then show ?case by simp
next
  case (3 a b cs)
  from "3.prems" obtain h l where hl: "digit16 a = Some h" "digit16 b = Some l" by auto
  have "\<exists>r. unhexlify cs = Inr r \<and> 2 * length r = length cs"
    using "3.IH" [OF refl hl] "3.prems" by simp
  then obtain r where r: "unhexlify cs = Inr r" "2 * length r = length cs" by blast
  with hl show ?case by simp
qed

lemma unhexlify_digest:
  assumes "hexdigest sha256"
  shows "\<exists>b. unhexlify (sha256 x) = Inr b \<and> length b = 32"
proof -
  have h: "hex_string (sha256 x)" using assms by (rule hexdigest_hex_string)
  have l: "length (sha256 x) = 64" using assms by (simp add: hexdigest_def)
  from h have "\<forall>c \<in> set (sha256 x). digit16 c \<noteq> None" by (simp add: hex_string_def)
  from unhexlify_hex [OF this] l show ?thesis by auto
qed

lemma ord_slice_simps [simp]:
  "y < length b \<Longrightarrow> ord_slice b y = Inr (of_char (b ! y))"
  "length b \<le> y \<Longrightarrow> ord_slice b y = Inl TypeError"
  by (simp_all add: ord_slice_def)

lemma sign_wkey_loop_map:
  assumes "\<forall>y \<in> set ys. y < length priv \<and> y < length bin_msg"
  shows "sign_wkey_loop sha256 priv bin_msg ys signature =
           Inr (signature @ map (\<lambda>y. (sha256 ^^ (256 - of_char (bin_msg ! y))) (priv ! y)) ys)"
  using assms by (induction ys arbitrary: signature) simp_all

lemma verify_wkey_loop_map:
  assumes "\<forall>x \<in> set xs. x < length signature \<and> x < length bin_msg"
  shows "verify_wkey_loop sha256 signature bin_msg xs verify =
           Inr (verify @ map (\<lambda>x. (sha256 ^^ of_char (bin_msg ! x)) (signature ! x)) xs)"
  using assms by (induction xs arbitrary: verify) simp_all

text \<open>Past the 32 bytes of the digest the loop of \<open>sign_wkey\<close> raises.\<close>

lemma sign_wkey_loop_raises:
  assumes "y \<in> set ys" "length bin_msg \<le> y" "\<forall>y \<in> set ys. y < length priv"
  shows "sign_wkey_loop sha256 priv bin_msg ys signature = Inl TypeError"
  using assms
proof (induction ys arbitrary: signature)
  case Nil
  then show ?case by simp
next
  case (Cons z zs)
  show ?case
  proof (cases "z < length bin_msg")
    case True
    with Cons show ?thesis by auto
  next
    case False
    with Cons.prems show ?thesis by simp
  qed
qed

text \<open>
  Claim C4, as the code has it. With a hash that returns hex digests, the digest of the
  message is 32 bytes. For a private key of at most 32 elements \<open>sign_wkey\<close> returns, for
  every position \<open>i\<close>, the \<open>i\<close>-th private element hashed exactly \<open>256 - byte_i\<close> times
  (not \<open>255 - byte_i\<close>); a longer private key raises TypeError. For a signature of at most
  32 elements \<open>verify_wkey\<close> hashes the \<open>i\<close>-th element \<open>byte_i\<close> times and returns
  whether the list of results equals the stored public key.
\<close>

theorem wkey_hash_counts:
  assumes "hexdigest sha256"
  shows "\<exists>bin_msg. unhexlify (sha256 message) = Inr bin_msg \<and> length bin_msg = 32 \<and>
     (length priv \<le> 32 \<longrightarrow>
        sign_wkey sha256 priv message =
          Inr (map (\<lambda>i. (sha256 ^^ (256 - of_char (bin_msg ! i))) (priv ! i)) [0..<length priv])) \<and>
     (length signature \<le> 32 \<longrightarrow>
        verify_wkey sha256 signature message pub =
          Inr (pub = map (\<lambda>i. (sha256 ^^ of_char (bin_msg ! i)) (signature ! i)) [0..<length signature])) \<and>
     (32 < length priv \<longrightarrow> sign_wkey sha256 priv message = Inl TypeError)"
proof -
  obtain b where b: "unhexlify (sha256 message) = Inr b" "length b = 32"
    using unhexlify_digest [OF assms] by blast
  have s: "sign_wkey sha256 priv message =
      Inr (map (\<lambda>i. (sha256 ^^ (256 - of_char (b ! i))) (priv ! i)) [0..<length priv])"
    if "length priv \<le> 32"
    using that b sign_wkey_loop_map [of "[0..<length priv]" priv b sha256 "[]"]
    by (simp add: sign_wkey_def)
  have v: "verify_wkey sha256 signature message pub =
      Inr (pub = map (\<lambda>i. (sha256 ^^ of_char (b ! i)) (signature ! i)) [0..<length signature])"
    if "length signature \<le> 32"
    using that b verify_wkey_loop_map [of "[0..<length signature]" signature b sha256 "[]"]
    by (simp add: verify_wkey_def)
  have e: "sign_wkey sha256 priv message = Inl TypeError" if "32 < length priv"
    using that b sign_wkey_loop_raises [of 32 "[0..<length priv]" b priv sha256 "[]"]
    by (simp add: sign_wkey_def)
  from b s v e show ?thesis by blast
qed

theorem wkey_hash_counts_witness:
  "\<exists>bin_msg. unhexlify (toy_sha256 ''m'') = Inr bin_msg \<and> length bin_msg = 32 \<and>
     sign_wkey toy_sha256 [''00'', ''01''] ''m'' =
       Inr (map (\<lambda>i. (toy_sha256 ^^ (256 - of_char (bin_msg ! i))) ([''00'', ''01''] ! i))
              [0..<length [''00'', ''01'']]) \<and>
     verify_wkey toy_sha256 [''02''] ''m'' [''03''] =
       Inr ([''03''] = map (\<lambda>i. (toy_sha256 ^^ of_char (bin_msg ! i)) ([''02''] ! i))
                        [0..<length [''02'']])"
proof -
  have p: "length [''00'', ''01''] \<le> 32" and q: "length [''02''] \<le> 32" by simp_all
  show ?thesis
    using wkey_hash_counts [OF toy_sha256_hexdigest, of "''m''" "[''00'', ''01'']" "[''02'']" "[''03'']"]
      p q
    by blast
qed

text \<open>
  The digest of \<open>m61\<close> starts with the byte 255, so \<open>sign_wkey\<close> hashes the private
  element \<open>256 - 255 = 1\<close> time; hashed \<open>255 - 255 = 0\<close> times it would be the private
  element itself.
\<close>

theorem wkey_hash_counts_counterexample:
  "map_sum id (\<lambda>b. (of_char (b ! 0) :: nat)) (unhexlify (sha256_sample ''m61'')) = Inr 255 \<and>
   sign_wkey sha256_sample [''00''] ''m61'' = Inr [(sha256_sample ^^ 1) ''00''] \<and>
   (sha256_sample ^^ 1) ''00'' \<noteq> (sha256_sample ^^ (255 - 255)) ''00''"
  by (simp add: sha256_sample_def sign_wkey_def digit16_def)

section \<open>verify\_root: results\<close>

text \<open>
  Claim C6 does not hold of the code. A path whose last element is not a singleton, and
  whose first element holds the hash of the public key, makes \<open>verify_root\<close> read
  \<open>merkle_path[x+1]\<close> past the end: IndexError, whatever the hash function is. A list of
  pairs that has not 256 elements is joined without being flattened: TypeError. The
  \<open>return False\<close> that closes the function is never reached.
\<close>

theorem verify_root_raises:
  "verify_root sha256 (WOTS_pub [''a'']) ''r'' [[sha256 ''a'', ''b'']] = Inl IndexError
   \<and> verify_root sha256 (LDOTS_pub [(''a'', ''b'')]) ''r'' [[''c'']] = Inl TypeError"
  by (simp add: verify_root_def pub_empty_def join_pub_def)

section \<open>Winternitz OTS+: digits and checksum\<close>

lemma digit16_less: "digit16 c = Some v \<Longrightarrow> v < 16"
  by (auto simp: digit16_def Let_def split: if_splits)

lemma py_int16_digit:
  assumes "digit16 c = Some v"
  shows "py_int16 [c] = Inr (int v)"
proof -
  have n: "digit16 c \<noteq> None" using assms by simp
  have "\<not> is_space c" using n by (rule digit16_not_space)
  moreover have "c \<noteq> CHR ''-''" "c \<noteq> CHR ''+''" using digit16_not_sign [OF n] by simp_all
  ultimately show ?thesis using assms by (simp add: py_int16_def)
qed

text \<open>The digits of a digest, and its checksum, as the first loop computes them.\<close>

lemma message_digits_hex:
  assumes "\<forall>x \<in> set xs. x < length d" "\<forall>c \<in> set d. digit16 c \<noteq> None"
  shows "message_digits d xs (s, checksum) =
           Inr (s @ map (\<lambda>x. int (the (digit16 (d ! x)))) xs,
                checksum + (\<Sum>x\<leftarrow>xs. 15 - int (the (digit16 (d ! x)))))"
  using assms(1)
proof (induction xs arbitrary: s checksum)
  case Nil
  show ?case by simp
next
  case (Cons x xs)
  have x: "x < length d" using Cons.prems by simp
  then have "digit16 (d ! x) \<noteq> None" using assms(2) by simp
  then obtain v where v: "digit16 (d ! x) = Some v" by auto
  have "\<forall>x \<in> set xs. x < length d" using Cons.prems by simp
  from Cons.IH [OF this] x v py_int16_digit [OF v] show ?case
    by (simp add: nth_err_def)
qed

lemma checksum_digits_hex:
  assumes "\<forall>x \<in> set xs. x < length c" "\<forall>ch \<in> set c. digit16 ch \<noteq> None"
  shows "checksum_digits c xs s = Inr (s @ map (\<lambda>x. int (the (digit16 (c ! x)))) xs)"
  using assms(1)
proof (induction xs arbitrary: s)
  case Nil
  show ?case by simp
next
  case (Cons x xs)
  have x: "x < length c" using Cons.prems by simp
  then have "digit16 (c ! x) \<noteq> None" using assms(2) by simp
  then obtain v where v: "digit16 (c ! x) = Some v" by auto
  have "\<forall>x \<in> set xs. x < length c" using Cons.prems by simp
  from Cons.IH [OF this] x v py_int16_digit [OF v] show ?case
    by (simp add: nth_err_def)
qed

lemma checksum_digits_short:
  assumes "length c = 2" "\<forall>ch \<in> set c. digit16 ch \<noteq> None"
  shows "checksum_digits c [0..<3] s = Inl IndexError"
proof -
  have u: "[0..<3] = [0, 1] @ [2]" by (simp add: upt_rec)
  obtain a b where c: "c = [a, b]" using assms(1)
    by (cases c; cases "tl c") auto
  then obtain va vb where v: "digit16 a = Some va" "digit16 b = Some vb"
    using assms(2) by auto
  show ?thesis
    unfolding u c by (simp add: nth_err_def py_int16_digit [OF v(1)] py_int16_digit [OF v(2)])
qed

lemma hex_of_nat_1: "n < 16 \<Longrightarrow> length (hex_of_nat n) = 1"
  by (subst hex_of_nat.simps) simp

lemma hex_of_nat_2: "16 \<le> n \<Longrightarrow> n < 256 \<Longrightarrow> length (hex_of_nat n) = 2"
  by (subst hex_of_nat.simps) (simp add: hex_of_nat_1 less_mult_imp_div_less)

lemma hex_of_nat_3: "256 \<le> n \<Longrightarrow> n < 4096 \<Longrightarrow> length (hex_of_nat n) = 3"
proof -
  assume a: "256 \<le> n" "n < 4096"
  then have "16 \<le> n div 16" "n div 16 < 256" by simp_all
  then have "length (hex_of_nat (n div 16)) = 2" by (rule hex_of_nat_2)
  with a show ?thesis by (subst hex_of_nat.simps) simp
qed

lemma hex_of_nat_digits: "\<forall>c \<in> set (hex_of_nat n). digit16 c \<noteq> None"
  using hex_of_nat_chars [of n] digit16_hexchars by blast

lemma checksum_string_cases:
  assumes "0 \<le> checksum"
  shows "(checksum < 16 \<longrightarrow> length (checksum_string checksum) = 2) \<and>
         (16 \<le> checksum \<and> checksum < 4096 \<longrightarrow> length (checksum_string checksum) = 3) \<and>
         (\<forall>c \<in> set (checksum_string checksum). digit16 c \<noteq> None)"
proof -
  have d: "drop 2 (py_hex False checksum) = hex_of_nat (nat checksum)"
    using assms by (simp add: py_hex_def)
  have z: "digit16 CHR ''0'' \<noteq> None" by (simp add: digit16_def)
  have "checksum < 16 \<Longrightarrow> length (hex_of_nat (nat checksum)) = 1"
    using assms by (intro hex_of_nat_1) simp
  moreover have "16 \<le> checksum \<Longrightarrow> checksum < 256 \<Longrightarrow> length (hex_of_nat (nat checksum)) = 2"
    by (intro hex_of_nat_2) simp_all
  moreover have "256 \<le> checksum \<Longrightarrow> checksum < 4096 \<Longrightarrow> length (hex_of_nat (nat checksum)) = 3"
    by (intro hex_of_nat_3) simp_all
  ultimately show ?thesis
    using hex_of_nat_digits [of "nat checksum"] z
    by (cases "checksum < 256") (auto simp: checksum_string_def d Let_def)
qed

section \<open>Lamport-Diffie OTS: results\<close>

lemma length_bit_choices [simp]: "length (bit_choices n l) = n"
  by (induction n arbitrary: l) simp_all

lemma length_lkey_choices [simp]: "length (lkey_choices bs) = 8 * length bs"
  by (induction bs) (simp_all add: lkey_choices_def)

lemma lkey_choices_Cons:
  "lkey_choices (b # bs) = bit_choices 8 (pad8 (drop 2 (py_bin (of_char b)))) @ lkey_choices bs"
  by (simp add: lkey_choices_def)

lemma zip_take_right: "length xs \<le> n \<Longrightarrow> zip xs (take n ys) = zip xs ys"
proof -
  assume a: "length xs \<le> n"
  have "zip xs (take n ys) = zip (take n xs) (take n ys)" using a by simp
  also have "\<dots> = take n (zip xs ys)" by (simp add: take_zip)
  also have "\<dots> = zip xs ys" using a by simp
  finally show ?thesis .
qed

lemma sign_lkey_bits_zip:
  assumes "z + n \<le> length priv"
  shows "sign_lkey_bits priv n l z signature =
           Inr (signature @ map (\<lambda>(c, p). if c then fst p else snd p)
                               (zip (bit_choices n l) (drop z priv)), z + n)"
  using assms
proof (induction n arbitrary: l z signature)
  case 0
  show ?case by simp
next
  case (Suc n)
  have z: "z < length priv" using Suc.prems by simp
  have d: "drop z priv = priv ! z # drop (Suc z) priv"
    using z by (simp add: Cons_nth_drop_Suc)
  have "Suc z + n \<le> length priv" using Suc.prems by simp
  from Suc.IH [OF this] z show ?case by (simp add: d)
qed

lemma sign_lkey_bytes_zip:
  assumes "z + 8 * length bs \<le> length priv"
  shows "sign_lkey_bytes priv bs z signature =
           Inr (signature @ map (\<lambda>(c, p). if c then fst p else snd p)
                               (zip (lkey_choices bs) (drop z priv)))"
  using assms
proof (induction bs arbitrary: z signature)
  case Nil
  show ?case by (simp add: lkey_choices_def)
next
  case (Cons b bs)
  have a: "z + 8 \<le> length priv" and r: "(z + 8) + 8 * length bs \<le> length priv"
    using Cons.prems by simp_all
  show ?case
    by (simp add: Let_def sign_lkey_bits_zip [OF a] Cons.IH [OF r] lkey_choices_Cons
        zip_append1 add.commute zip_take_right)
qed

lemma verify_lkey_bits_zip:
  assumes "z + n \<le> length signature" "z + n \<le> length pub"
  shows "verify_lkey_bits sha256 signature pub n l z verify =
           Inr (verify @ map (\<lambda>(c, g, p). (sha256 g, if c then fst p else snd p))
                            (zip (bit_choices n l) (zip (drop z signature) (drop z pub))), z + n)"
  using assms
proof (induction n arbitrary: l z verify)
  case 0
  show ?case by simp
next
  case (Suc n)
  have z: "z < length signature" "z < length pub" using Suc.prems by simp_all
  have d: "drop z signature = signature ! z # drop (Suc z) signature"
    "drop z pub = pub ! z # drop (Suc z) pub"
    using z by (simp_all add: Cons_nth_drop_Suc)
  have "Suc z + n \<le> length signature" "Suc z + n \<le> length pub" using Suc.prems by simp_all
  from Suc.IH [OF this] z show ?case by (simp add: d)
qed

lemma verify_lkey_bytes_zip:
  assumes "z + 8 * length bs \<le> length signature" "z + 8 * length bs \<le> length pub"
  shows "verify_lkey_bytes sha256 signature pub bs z verify =
           Inr (verify @ map (\<lambda>(c, g, p). (sha256 g, if c then fst p else snd p))
                            (zip (lkey_choices bs) (zip (drop z signature) (drop z pub))))"
  using assms
proof (induction bs arbitrary: z verify)
  case Nil
  show ?case by (simp add: lkey_choices_def)
next
  case (Cons b bs)
  have a: "z + 8 \<le> length signature" "z + 8 \<le> length pub"
    and r: "(z + 8) + 8 * length bs \<le> length signature" "(z + 8) + 8 * length bs \<le> length pub"
    using Cons.prems by simp_all
  show ?case
    by (simp add: Let_def verify_lkey_bits_zip [OF a] Cons.IH [OF r] lkey_choices_Cons
        zip_append1 add.commute drop_zip take_zip [symmetric] zip_take_right)
qed

lemma lkey_roundtrip:
  assumes "hexdigest sha256" "256 \<le> length priv"
    and "pub = map (\<lambda>(a, b). (sha256 a, sha256 b)) priv"
  shows "\<exists>signature. sign_lkey sha256 priv message = Inr signature \<and> length signature = 256 \<and>
           verify_lkey sha256 signature message pub = Inr True"
proof -
  obtain bin where bin: "unhexlify (sha256 message) = Inr bin" "length bin = 32"
    using unhexlify_digest [OF assms(1)] by blast
  define cs where "cs = lkey_choices bin"
  have lcs: "length cs = 256" using bin by (simp add: cs_def)
  define sg where "sg = map (\<lambda>(c, p). if c then fst p else snd p) (zip cs priv)"
  have lsg: "length sg = 256" using lcs assms(2) by (simp add: sg_def)
  have s: "sign_lkey sha256 priv message = Inr sg"
    using bin assms(2) sign_lkey_bytes_zip [of 0 bin priv "[]"]
    by (simp add: sign_lkey_def sg_def cs_def)
  have lp: "length pub = length priv" using assms(3) by simp
  have v: "verify_lkey_bytes sha256 sg pub bin 0 [] =
      Inr (map (\<lambda>(c, g, p). (sha256 g, if c then fst p else snd p)) (zip cs (zip sg pub)))"
    using bin lsg lp assms(2) verify_lkey_bytes_zip [of 0 bin sg pub sha256 "[]"]
    by (simp add: cs_def)
  have "list_all (\<lambda>p. fst p = snd p)
          (map (\<lambda>(c, g, p). (sha256 g, if c then fst p else snd p)) (zip cs (zip sg pub)))"
    unfolding list_all_length
  proof (intro allI impI)
    fix i assume "i < length (map (\<lambda>(c, g, p). (sha256 g, if c then fst p else snd p)) (zip cs (zip sg pub)))"
    then have i: "i < 256" using lcs by simp
    then have ip: "i < length priv" using assms(2) by simp
    have "sg ! i = (if cs ! i then fst (priv ! i) else snd (priv ! i))"
      using i ip lcs by (simp add: sg_def)
    moreover have "pub ! i = (sha256 (fst (priv ! i)), sha256 (snd (priv ! i)))"
      using ip assms(3) by (simp add: case_prod_unfold)
    ultimately show "fst (map (\<lambda>(c, g, p). (sha256 g, if c then fst p else snd p)) (zip cs (zip sg pub)) ! i)
        = snd (map (\<lambda>(c, g, p). (sha256 g, if c then fst p else snd p)) (zip cs (zip sg pub)) ! i)"
      using i ip lcs lsg lp by simp
  qed
  with bin v have "verify_lkey sha256 sg message pub = Inr True"
    by (simp add: verify_lkey_def)
  with s lsg show ?thesis by blast
qed

section \<open>Winternitz OTS: signing and verifying a generated key\<close>

lemma funpow_Suc_app: "(f ^^ Suc n) x = f ((f ^^ n) x)"
  by simp

lemma of_char_le_255: "(of_char c :: nat) \<le> 255"
proof -
  have "(of_char c :: nat) mod 256 < 256" by (rule mod_less_divisor) simp
  then have "(of_char c :: nat) < 256" by (simp only: of_char_mod_256)
  then show ?thesis by arith
qed

lemma wkey_roundtrip:
  assumes "hexdigest sha256"
  shows "\<exists>priv pub signature. random_wkey sha256 random_key 8 = Inr (priv, pub) \<and>
           sign_wkey sha256 priv message = Inr signature \<and>
           verify_wkey sha256 signature message pub = Inr True"
proof -
  obtain b where b: "unhexlify (sha256 message) = Inr b" "length b = 32"
    using unhexlify_digest [OF assms] by blast
  define priv where "priv = map random_key [0..<32]"
  define pub where "pub = map (\<lambda>a. sha256 ((sha256 ^^ 255) a)) priv"
  define sg where "sg = map (\<lambda>y. (sha256 ^^ (256 - of_char (b ! y))) (priv ! y)) [0..<32]"
  have lp: "length priv = 32" by (simp add: priv_def)
  have k: "random_wkey sha256 random_key 8 = Inr (priv, pub)"
    by (simp add: random_wkey_def priv_def pub_def)
  have s: "sign_wkey sha256 priv message = Inr sg"
    using b lp sign_wkey_loop_map [of "[0..<32]" priv b sha256 "[]"]
    by (simp add: sign_wkey_def sg_def)
  have lsg: "length sg = 32" by (simp add: sg_def)
  have v: "verify_wkey_loop sha256 sg b [0..<32] [] =
      Inr (map (\<lambda>x. (sha256 ^^ of_char (b ! x)) (sg ! x)) [0..<32])"
    using b lsg verify_wkey_loop_map [of "[0..<32]" sg b sha256 "[]"] by simp
  have "map (\<lambda>x. (sha256 ^^ of_char (b ! x)) (sg ! x)) [0..<32] = pub"
  proof (rule nth_equalityI)
    show "length (map (\<lambda>x. (sha256 ^^ of_char (b ! x)) (sg ! x)) [0..<32]) = length pub"
      by (simp add: pub_def lp)
  next
    fix i assume "i < length (map (\<lambda>x. (sha256 ^^ of_char (b ! x)) (sg ! x)) [0..<32])"
    then have i: "i < 32" by simp
    have c: "(of_char (b ! i) :: nat) \<le> 255" by (rule of_char_le_255)
    have e: "of_char (b ! i) + (256 - of_char (b ! i)) = Suc 255" using c by simp
    have "(sha256 ^^ of_char (b ! i)) ((sha256 ^^ (256 - of_char (b ! i))) (priv ! i))
        = (sha256 ^^ (of_char (b ! i) + (256 - of_char (b ! i)))) (priv ! i)"
      by (simp add: funpow_add)
    also have "\<dots> = sha256 ((sha256 ^^ 255) (priv ! i))"
      unfolding e by (rule funpow_Suc_app)
    finally show "map (\<lambda>x. (sha256 ^^ of_char (b ! x)) (sg ! x)) [0..<32] ! i = pub ! i"
      using i lp by (simp add: sg_def pub_def)
  qed
  with v b lsg have "verify_wkey sha256 sg message pub = Inr True"
    by (simp add: verify_wkey_def)
  with k s show ?thesis by blast
qed

lemma map_err_Inr: "map_err f xs = Inr ys \<longleftrightarrow> list_all2 (\<lambda>x y. f x = Inr y) xs ys"
proof (induction xs arbitrary: ys)
  case Nil
  show ?case by auto
next
  case (Cons x xs)
  show ?case
  proof (cases "f x")
    case (Inl e)
    then show ?thesis by (auto simp: list_all2_Cons1)
  next
    case (Inr y)
    show ?thesis
    proof (cases "map_err f xs")
      case (Inl e)
      with Inr Cons.IH show ?thesis by (auto simp: list_all2_Cons1)
    next
      case r: (Inr zs)
      with Inr Cons.IH show ?thesis by (auto simp: list_all2_Cons1)
    qed
  qed
qed

lemma map_err_total:
  assumes "\<forall>x \<in> set xs. \<exists>y. f x = Inr y"
  shows "\<exists>ys. map_err f xs = Inr ys"
  using assms
proof (induction xs)
  case Nil
  show ?case by simp
next
  case (Cons x xs)
  then obtain y ys where "f x = Inr y" "map_err f xs = Inr ys" by auto
  then show ?case by simp
qed

lemma sum_list_bounds:
  assumes "\<forall>x \<in> set xs. 0 \<le> f x \<and> f x \<le> (15::int)"
  shows "0 \<le> sum_list (map f xs) \<and> sum_list (map f xs) \<le> 15 * int (length xs)"
  using assms by (induction xs) auto

lemma wp_digits_cases:
  assumes "hexdigest sha256"
  shows "\<exists>s checksum. message_digits (sha256 message) [0..<64] ([], 0) = Inr (s, checksum) \<and>
           length s = 64 \<and> (\<forall>y \<in> set s. 0 \<le> y \<and> y \<le> 15) \<and> 0 \<le> checksum \<and> checksum \<le> 960 \<and>
           (checksum < 16 \<longrightarrow> wp_digits sha256 message = Inl IndexError) \<and>
           (16 \<le> checksum \<longrightarrow>
              (\<exists>t. wp_digits sha256 message = Inr (s @ t) \<and> length t = 3 \<and> (\<forall>y \<in> set t. 0 \<le> y \<and> y \<le> 15)))"
proof -
  define d where "d = sha256 message"
  have ld: "length d = 64" using assms by (simp add: d_def hexdigest_def)
  have hd: "\<forall>c \<in> set d. digit16 c \<noteq> None"
    using hexdigest_hex_string [OF assms, of message] by (simp add: d_def hex_string_def)
  define val where "val = (\<lambda>x. int (the (digit16 (d ! x))))"
  have vr: "0 \<le> val x \<and> val x \<le> 15" if "x < 64" for x
  proof -
    from that ld hd obtain v where "digit16 (d ! x) = Some v" by fastforce
    with digit16_less [OF this] show ?thesis by (simp add: val_def)
  qed
  define s where "s = map val [0..<64]"
  define checksum where "checksum = (\<Sum>x\<leftarrow>[0..<64]. 15 - val x)"
  have md: "message_digits d [0..<64] ([], 0) = Inr (s, checksum)"
    using message_digits_hex [of "[0..<64]" d "[]" 0] ld hd
    by (simp add: s_def checksum_def val_def)
  have ls: "length s = 64" by (simp add: s_def)
  have rs: "\<forall>y \<in> set s. 0 \<le> y \<and> y \<le> 15" using vr by (auto simp: s_def)
  have "\<forall>x \<in> set [0..<64]. 0 \<le> 15 - val x \<and> 15 - val x \<le> 15" using vr by auto
  from sum_list_bounds [OF this] have cr: "0 \<le> checksum" "checksum \<le> 960"
    by (simp_all add: checksum_def)
  note cs = checksum_string_cases [OF cr(1)]
  have hc: "\<forall>c \<in> set (checksum_string checksum). digit16 c \<noteq> None" using cs by blast
  have low: "wp_digits sha256 message = Inl IndexError" if "checksum < 16"
  proof -
    have "length (checksum_string checksum) = 2" using cs that by blast
    from checksum_digits_short [OF this hc] md show ?thesis
      by (simp add: wp_digits_def d_def [symmetric])
  qed
  have high: "\<exists>t. wp_digits sha256 message = Inr (s @ t) \<and> length t = 3 \<and> (\<forall>y \<in> set t. 0 \<le> y \<and> y \<le> 15)"
    if "16 \<le> checksum"
  proof -
    have l3: "length (checksum_string checksum) = 3" using cs that cr(2) by simp
    define t where "t = map (\<lambda>x. int (the (digit16 (checksum_string checksum ! x)))) [0..<3]"
    have "checksum_digits (checksum_string checksum) [0..<3] s = Inr (s @ t)"
      using checksum_digits_hex [of "[0..<3]" "checksum_string checksum" s] l3 hc
      by (simp add: t_def)
    with md have w: "wp_digits sha256 message = Inr (s @ t)"
      by (simp add: wp_digits_def d_def [symmetric])
    have "0 \<le> y \<and> y \<le> 15" if "y \<in> set t" for y
    proof -
      from that obtain x where x: "x < 3" "y = int (the (digit16 (checksum_string checksum ! x)))"
        by (auto simp: t_def)
      with l3 hc obtain v where "digit16 (checksum_string checksum ! x) = Some v" by fastforce
      with digit16_less [OF this] x show ?thesis by simp
    qed
    with w show ?thesis by (auto simp: t_def)
  qed
  from md ls rs cr low high show ?thesis unfolding d_def by blast
qed

lemma sign_wpkey_loop_map:
  assumes "\<forall>x \<in> set xs. x < length priv \<and> x < length s \<and>
             chain_fn sha256 (priv ! x) (fst (fst pub)) (s ! x) (snd (fst pub)) = Inr (g x)"
  shows "sign_wpkey_loop sha256 priv pub s xs signature = Inr (signature @ map g xs)"
  using assms by (induction xs arbitrary: signature) simp_all

lemma verify_wpkey_loop_map:
  assumes "\<forall>x \<in> set xs. x < length signature \<and> x < length s \<and>
             chain_fn2 sha256 (signature ! x) (fst (fst pub)) (s ! x) (snd (fst pub)) = Inr (g x)"
  shows "verify_wpkey_loop sha256 signature pub s xs pub2 = Inr (pub2 @ map g xs)"
  using assms by (induction xs arbitrary: pub2) simp_all

lemma random_wpkey_Inr:
  assumes "random_wpkey sha256 random_key = Inr (priv, pub)"
  shows "length priv = 67 \<and> length (snd pub) = 67 \<and>
         (\<forall>x < 67. chain_fn sha256 (priv ! x) (fst (fst pub)) 15 (snd (fst pub)) = Inr (snd pub ! x))"
proof -
  define sk where "sk = map random_key [0..<82]"
  define r where "r = drop 67 sk"
  define k where "k = random_key 82"
  have p: "take (length sk - 15) sk = take 67 sk" by (simp add: sk_def)
  from assms obtain chains where
    c: "map_err (\<lambda>sk1. chain_fn sha256 sk1 r 15 k) (take 67 sk) = Inr chains"
    and e: "priv = take 67 sk" "pub = ((r, k), chains)"
    unfolding random_wpkey_def Let_def
    by (auto simp: bind_err_Inr_iff sk_def r_def k_def)
  from c have l2: "list_all2 (\<lambda>x y. chain_fn sha256 x r 15 k = Inr y) priv chains"
    by (simp add: map_err_Inr e)
  have lp: "length priv = 67" by (simp add: e sk_def)
  from l2 lp have lc: "length chains = 67" by (simp add: list_all2_lengthD [symmetric])
  from l2 have "\<forall>x < 67. chain_fn sha256 (priv ! x) r 15 k = Inr (chains ! x)"
    using lp by (simp add: list_all2_conv_all_nth)
  with lp lc e show ?thesis by simp
qed

lemma random_wpkey_total:
  assumes "hexdigest sha256" "\<forall>i. hex_string (random_key i)"
  shows "\<exists>priv pub. random_wpkey sha256 random_key = Inr (priv, pub)"
proof -
  define sk where "sk = map random_key [0..<82]"
  define r where "r = drop 67 sk"
  define k where "k = random_key 82"
  have lr: "length r = 15" by (simp add: r_def sk_def)
  have hr: "\<forall>e \<in> set r. hex_string e"
    using assms(2) by (auto simp: r_def sk_def dest!: in_set_dropD)
  have "\<exists>y. chain_fn sha256 p r 15 k = Inr y" if "p \<in> set (take 67 sk)" for p
  proof -
    from that have hp: "hex_string p" using assms(2) by (auto simp: sk_def dest!: in_set_takeD)
    have "\<forall>y \<in> set [0..14]. 0 \<le> y \<and> y < int (length r)" using lr by simp
    from chain_loop_ok [OF assms(1) hr this hp, of k] show ?thesis
      by (auto simp: chain_fn_def)
  qed
  then obtain chains where "map_err (\<lambda>sk1. chain_fn sha256 sk1 r 15 k) (take 67 sk) = Inr chains"
    using map_err_total [of "take 67 sk" "\<lambda>sk1. chain_fn sha256 sk1 r 15 k"] by blast
  then show ?thesis
    unfolding random_wpkey_def Let_def by (simp add: sk_def r_def k_def)
qed

lemma wpkey_roundtrip:
  assumes "random_wpkey sha256 random_key = Inr (priv, pub)"
    and "wp_digits sha256 message = Inr s" "length s = 67" "\<forall>y \<in> set s. 0 \<le> y \<and> y \<le> 15"
  shows "\<exists>signature. sign_wpkey sha256 priv message pub = Inr signature \<and> length signature = 67 \<and>
           verify_wpkey sha256 signature message pub = Inr True"
proof -
  define r where "r = fst (fst pub)"
  define k where "k = snd (fst pub)"
  note kg = random_wpkey_Inr [OF assms(1), folded r_def k_def]
  define g where "g = (\<lambda>x. case chain_fn sha256 (priv ! x) r (s ! x) k of Inr v \<Rightarrow> v | Inl e \<Rightarrow> [])"
  have step: "chain_fn sha256 (priv ! x) r (s ! x) k = Inr (g x) \<and>
              chain_fn2 sha256 (g x) r (s ! x) k = Inr (snd pub ! x)" if "x < 67" for x
  proof -
    have "s ! x \<in> set s" using that assms(3) by simp
    then have sx: "0 \<le> s ! x" "s ! x \<le> 15" using assms(4) by auto
    have "bind_err (chain_fn sha256 (priv ! x) r (s ! x) k) (\<lambda>v. chain_fn2 sha256 v r (s ! x) k)
        = Inr (snd pub ! x)"
      using chain_fn_resume [OF sx, of sha256 "priv ! x" r k] kg that by simp
    then show ?thesis by (auto simp: bind_err_Inr_iff g_def)
  qed
  define sg where "sg = map g [0..<67]"
  have lsg: "length sg = 67" by (simp add: sg_def)
  have "\<forall>x \<in> set [0..<67]. x < length priv \<and> x < length s \<and>
          chain_fn sha256 (priv ! x) (fst (fst pub)) (s ! x) (snd (fst pub)) = Inr (g x)"
    using step kg assms(3) by (simp add: r_def k_def)
  from sign_wpkey_loop_map [OF this, of "[]"] assms(2)
  have sgn: "sign_wpkey sha256 priv message pub = Inr sg"
    by (simp add: sign_wpkey_def sg_def)
  have "\<forall>x \<in> set [0..<67]. x < length sg \<and> x < length s \<and>
          chain_fn2 sha256 (sg ! x) (fst (fst pub)) (s ! x) (snd (fst pub)) = Inr (snd pub ! x)"
    using step lsg assms(3) by (simp add: r_def k_def sg_def)
  from verify_wpkey_loop_map [OF this, of "[]"]
  have "verify_wpkey_loop sha256 sg pub s [0..<67] [] = Inr (map (\<lambda>x. snd pub ! x) [0..<67])"
    by simp
  moreover have "map (\<lambda>x. snd pub ! x) [0..<67] = snd pub"
    using kg by (metis map_nth)
  ultimately have "verify_wpkey sha256 sg message pub = Inr True"
    using assms(2) by (simp add: verify_wpkey_def)
  with sgn lsg show ?thesis by blast
qed

section \<open>Digits of the stand-in digests\<close>

lemma sha256_ff_hexdigest: "hexdigest sha256_ff"
  by (simp add: hexdigest_def sha256_ff_def)

lemma sha256_ff_digits:
  "message_digits (sha256_ff message) [0..<64] ([], 0) = Inr (replicate 64 15, 0)"
proof -
  have d: "\<forall>c \<in> set (sha256_ff message). digit16 c \<noteq> None"
    by (simp add: sha256_ff_def digit16_def)
  have v: "int (the (digit16 (sha256_ff message ! x))) = 15" if "x < 64" for x
    using that by (simp add: sha256_ff_def digit16_def)
  have m: "map (\<lambda>x. int (the (digit16 (sha256_ff message ! x)))) [0..<64] = replicate 64 15"
    by (rule nth_equalityI) (simp_all add: v)
  have "map (\<lambda>x. 15 - int (the (digit16 (sha256_ff message ! x)))) [0..<64] = replicate 64 0"
    by (rule nth_equalityI) (simp_all add: v)
  then have s: "(\<Sum>x\<leftarrow>[0..<64]. 15 - int (the (digit16 (sha256_ff message ! x)))) = 0"
    by (simp add: sum_list_replicate)
  have l: "\<forall>x \<in> set [0..<64]. x < length (sha256_ff message)"
    by (simp add: sha256_ff_def)
  show ?thesis
    using message_digits_hex [OF l d, of "[]" 0] by (simp only: m s) simp
qed

lemma toy_m: "toy_sha256 ''m'' = ''0000000000000000000000000000000000000000000000000000000000000775''"
  by code_simp

lemma toy_m_digits:
  "message_digits (toy_sha256 ''m'') [0..<64] ([], 0) = Inr (replicate 61 0 @ [7, 7, 5], 941)"
  unfolding toy_m by code_simp

section \<open>Winternitz OTS+: the checksum digits\<close>

lemma message_digits_checksum:
  assumes "hexdigest sha256"
    and "message_digits (sha256 message) [0..<64] ([], 0) = Inr (s, checksum)"
  shows "length s = 64 \<and> 0 \<le> checksum \<and> checksum \<le> 960 \<and>
         (checksum < 16 \<longrightarrow> wp_digits sha256 message = Inl IndexError) \<and>
         (16 \<le> checksum \<longrightarrow>
            (\<exists>d. wp_digits sha256 message = Inr d \<and> length d = 67 \<and> (\<forall>y \<in> set d. 0 \<le> y \<and> y \<le> 15)))"
proof -
  from wp_digits_cases [OF assms(1), of message] assms(2)
  have a: "length s = 64" "\<forall>y \<in> set s. 0 \<le> y \<and> y \<le> 15" "0 \<le> checksum" "checksum \<le> 960"
    "checksum < 16 \<longrightarrow> wp_digits sha256 message = Inl IndexError"
    and b: "16 \<le> checksum \<longrightarrow>
       (\<exists>t. wp_digits sha256 message = Inr (s @ t) \<and> length t = 3 \<and> (\<forall>y \<in> set t. 0 \<le> y \<and> y \<le> 15))"
    by auto
  have "\<exists>d. wp_digits sha256 message = Inr d \<and> length d = 67 \<and> (\<forall>y \<in> set d. 0 \<le> y \<and> y \<le> 15)"
    if "16 \<le> checksum"
  proof -
    from b that obtain t where t: "wp_digits sha256 message = Inr (s @ t)" "length t = 3"
      "\<forall>y \<in> set t. 0 \<le> y \<and> y \<le> 15" by blast
    have "length (s @ t) = 67" using a(1) t(2) by simp
    moreover have "\<forall>y \<in> set (s @ t). 0 \<le> y \<and> y \<le> 15" using a(2) t(3) by auto
    ultimately show ?thesis using t(1) by blast
  qed
  with a show ?thesis by blast
qed

lemma hex_of_nat_nonempty: "hex_of_nat n \<noteq> []"
  by (subst hex_of_nat.simps) simp

lemma hex_string_hex64: "hex_string (hex64 n)"
proof -
  have z: "digit16 CHR ''0'' \<noteq> None" by (simp add: digit16_def)
  have "hex64 n \<noteq> []" using hex_of_nat_nonempty by (simp add: hex64_def Let_def)
  moreover have "\<forall>c \<in> set (hex64 n). digit16 c \<noteq> None"
    using hex_of_nat_digits [of n] z by (auto simp: hex64_def Let_def)
  ultimately show ?thesis by (simp add: hex_string_def)
qed














text \<open>
  The condition on the checksum cannot be dropped while the hash is a parameter: at a
  stand-in whose digest is 64 times \<open>f\<close> the checksum is 0, the padded string is \<open>00\<close>,
  and reading its third character raises IndexError. No message with such a SHA-256
  digest is known.
\<close>

lemma wp_digits_all_f:
  "length (checksum_string 0) = 2 \<and> wp_digits sha256_ff message = Inl IndexError"
proof -
  have "(0::int) < 16" by simp
  with message_digits_checksum [OF sha256_ff_hexdigest sha256_ff_digits, of message]
    checksum_string_cases [of 0]
  show ?thesis by simp
qed

section \<open>Signing and verifying with a generated key\<close>

text \<open>
  Claim C1, as the code has it. With a hash that returns hex digests and for every message:
  a key pair from \<open>random_wkey\<close> at its default \<open>w = 8\<close> signs, and the signature
  verifies; a key pair from \<open>random_lkey\<close> with 256 pairs (the default) or more signs, and
  the signature verifies; a key pair from \<open>random_wpkey\<close> (at \<open>w = 16\<close>, from
  hexadecimal random keys) signs with 67 elements and the signature verifies, whenever the
  checksum of the 64 digest digits is at least 16. What the code does below 16 is not
  stated here (see \<open>message_digits_checksum\<close>).
\<close>

theorem ots_sign_verify:
  assumes "hexdigest sha256"
  shows "(\<exists>priv pub signature. random_wkey sha256 random_key 8 = Inr (priv, pub) \<and>
            sign_wkey sha256 priv message = Inr signature \<and>
            verify_wkey sha256 signature message pub = Inr True) \<and>
         (256 \<le> numbers \<longrightarrow>
            (\<exists>signature.
               sign_lkey sha256 (fst (random_lkey sha256 random_key numbers)) message = Inr signature \<and>
               verify_lkey sha256 signature message (snd (random_lkey sha256 random_key numbers)) = Inr True)) \<and>
         ((\<forall>i. hex_string (random_key i)) \<and>
          message_digits (sha256 message) [0..<64] ([], 0) = Inr (s, checksum) \<and> 16 \<le> checksum \<longrightarrow>
            (\<exists>priv pub signature. random_wpkey sha256 random_key = Inr (priv, pub) \<and>
               sign_wpkey sha256 priv message pub = Inr signature \<and> length signature = 67 \<and>
               verify_wpkey sha256 signature message pub = Inr True))"
proof (intro conjI impI)
  show "\<exists>priv pub signature. random_wkey sha256 random_key 8 = Inr (priv, pub) \<and>
            sign_wkey sha256 priv message = Inr signature \<and>
            verify_wkey sha256 signature message pub = Inr True"
    using assms by (rule wkey_roundtrip)
next
  assume n: "256 \<le> numbers"
  define priv where "priv = map (\<lambda>x. (random_key (2 * x), random_key (2 * x + 1))) [0..<nat numbers]"
  have kp: "random_lkey sha256 random_key numbers = (priv, map (\<lambda>(a, b). (sha256 a, sha256 b)) priv)"
    by (simp add: random_lkey_def priv_def)
  have "256 \<le> length priv" using n by (simp add: priv_def)
  from lkey_roundtrip [OF assms this refl, of message]
  show "\<exists>signature.
       sign_lkey sha256 (fst (random_lkey sha256 random_key numbers)) message = Inr signature \<and>
       verify_lkey sha256 signature message (snd (random_lkey sha256 random_key numbers)) = Inr True"
    unfolding kp by auto
next
  assume a: "(\<forall>i. hex_string (random_key i)) \<and>
          message_digits (sha256 message) [0..<64] ([], 0) = Inr (s, checksum) \<and> 16 \<le> checksum"
  then obtain priv pub where kp: "random_wpkey sha256 random_key = Inr (priv, pub)"
    using random_wpkey_total [OF assms] by blast
  from a message_digits_checksum [OF assms, of message s checksum]
  obtain d where d: "wp_digits sha256 message = Inr d" "length d = 67" "\<forall>y \<in> set d. 0 \<le> y \<and> y \<le> 15"
    by blast
  from wpkey_roundtrip [OF kp d] kp
  show "\<exists>priv pub signature. random_wpkey sha256 random_key = Inr (priv, pub) \<and>
               sign_wpkey sha256 priv message pub = Inr signature \<and> length signature = 67 \<and>
               verify_wpkey sha256 signature message pub = Inr True"
    by blast
qed

theorem ots_sign_verify_witness:
  "(\<exists>priv pub signature. random_wkey toy_sha256 hex64 8 = Inr (priv, pub) \<and>
      sign_wkey toy_sha256 priv ''m'' = Inr signature \<and>
      verify_wkey toy_sha256 signature ''m'' pub = Inr True) \<and>
   (\<exists>signature.
      sign_lkey toy_sha256 (fst (random_lkey toy_sha256 hex64 256)) ''m'' = Inr signature \<and>
      verify_lkey toy_sha256 signature ''m'' (snd (random_lkey toy_sha256 hex64 256)) = Inr True) \<and>
   (\<exists>priv pub signature. random_wpkey toy_sha256 hex64 = Inr (priv, pub) \<and>
      sign_wpkey toy_sha256 priv ''m'' pub = Inr signature \<and> length signature = 67 \<and>
      verify_wpkey toy_sha256 signature ''m'' pub = Inr True)"
proof -
  have n: "(256::int) \<le> 256" and c: "(16::int) \<le> 941" by simp_all
  have h: "\<forall>i. hex_string (hex64 i)" using hex_string_hex64 by blast
  show ?thesis
    using ots_sign_verify [OF toy_sha256_hexdigest, of hex64 "''m''" 256 "replicate 61 0 @ [7, 7, 5]" 941]
      n c h toy_m_digits
    by blast
qed

text \<open>
  A key pair from \<open>random_wkey(w=4)\<close> has 64 private elements; the digest has 32 bytes, and
  \<open>sign_wkey\<close> raises TypeError at the 33rd element.
\<close>

theorem ots_sign_verify_counterexample:
  "bind_err (random_wkey toy_sha256 hex64 4) (\<lambda>(priv, pub). sign_wkey toy_sha256 priv ''m'')
     = Inl TypeError"
proof -
  obtain b where b: "unhexlify (toy_sha256 ''m'') = Inr b" "length b = 32"
    using unhexlify_digest [OF toy_sha256_hexdigest] by blast
  define priv where "priv = map hex64 [0..<64]"
  have "sign_wkey_loop toy_sha256 priv b [0..<length priv] [] = Inl TypeError"
    by (rule sign_wkey_loop_raises [of 32]) (simp_all add: priv_def b)
  with b have "sign_wkey toy_sha256 priv ''m'' = Inl TypeError"
    by (simp add: sign_wkey_def)
  then show ?thesis by (simp add: random_wkey_def priv_def)
qed

section \<open>Authentication paths: the search of route\_proof\<close>

lemma above_loop_nomatch:
  assumes "\<forall>z \<in> set zs. sha256 (leaf @ node) \<noteq> z \<and> sha256 (node @ leaf) \<noteq> z"
  shows "above_loop sha256 node zs (route, leaf) = (route, leaf)"
  using assms by (induction zs) simp_all

lemma above_loop_append:
  "above_loop sha256 node (xs @ ys) st = above_loop sha256 node ys (above_loop sha256 node xs st)"
proof (induction xs arbitrary: st)
  case Nil
  show ?case by (cases st) simp
next
  case (Cons x xs)
  obtain route leaf where st: "st = (route, leaf)" by (cases st)
  show ?case unfolding st by (simp add: Cons.IH)
qed

lemma nodes_loop_nomatch:
  assumes "\<forall>node \<in> set ns. node \<noteq> leaf \<longrightarrow>
             (\<forall>z \<in> set abv. sha256 (leaf @ node) \<noteq> z \<and> sha256 (node @ leaf) \<noteq> z)"
  shows "nodes_loop sha256 abv ns (route, leaf) = (route, leaf)"
  using assms
proof (induction ns)
  case Nil
  show ?case by simp
next
  case (Cons n ns)
  show ?case
  proof (cases "leaf = n")
    case True
    with Cons show ?thesis by simp
  next
    case False
    with Cons.prems have "\<forall>z \<in> set abv. sha256 (leaf @ n) \<noteq> z \<and> sha256 (n @ leaf) \<noteq> z"
      by auto
    from above_loop_nomatch [OF this] False Cons show ?thesis by simp
  qed
qed

lemma nodes_loop_append:
  "nodes_loop sha256 abv (xs @ ys) st = nodes_loop sha256 abv ys (nodes_loop sha256 abv xs st)"
proof (induction xs arbitrary: st)
  case Nil
  show ?case by simp
next
  case (Cons x xs)
  obtain route leaf where st: "st = (route, leaf)" by (cases st)
  show ?case unfolding st by (simp add: Cons.IH)
qed


text \<open>Positions in a layer: \<open>p\<close> and its neighbour are \<open>2j\<close> and \<open>2j + 1\<close>, \<open>j = p div 2\<close>.\<close>

lemma genuine_pair_positions:
  assumes "distinct nodes" "genuine_pair nodes u w" "p < length nodes" "q < length nodes"
    "u = nodes ! p" "w = nodes ! q"
  shows "even p \<and> q = p + 1"
proof -
  from assms(2) obtain j where j: "2 * j + 1 < length nodes" "u = nodes ! (2 * j)"
    "w = nodes ! (2 * j + 1)" by (auto simp: genuine_pair_def)
  have "p = 2 * j" using assms(1,3,5) j(1,2) by (simp add: nth_eq_iff_index_eq)
  moreover have "q = 2 * j + 1" using assms(1,4,6) j(1,3) by (simp add: nth_eq_iff_index_eq)
  ultimately show ?thesis by simp
qed

text \<open>The innermost loop at the neighbour of the node: one pair is appended.\<close>

lemma above_loop_neighbour:
  assumes ok: "layer_ok sha256 nodes (paired_layer sha256 nodes)"
    and j: "2 * j + 1 < length nodes"
    and pq: "(p = 2 * j \<and> q = 2 * j + 1) \<or> (p = 2 * j + 1 \<and> q = 2 * j)"
  shows "above_loop sha256 (nodes ! q) (paired_layer sha256 nodes) (route, nodes ! p)
       = (route @ [[nodes ! (2 * j), nodes ! (2 * j + 1)]], paired_layer sha256 nodes ! j)"
proof -
  define abv where "abv = paired_layer sha256 nodes"
  define v where "v = nodes ! p"
  define s where "s = nodes ! q"
  define par where "par = sha256 (nodes ! (2 * j) @ nodes ! (2 * j + 1))"
  have d: "distinct nodes" and da: "distinct abv"
    and g1: "\<And>u w. u \<in> set nodes \<Longrightarrow> w \<in> set nodes \<Longrightarrow> sha256 (u @ w) \<in> set abv \<Longrightarrow>
               genuine_pair nodes u w"
    and g2: "\<And>w. w \<in> set nodes \<Longrightarrow>
               sha256 (par @ w) \<notin> set abv \<and> sha256 (w @ par) \<notin> set abv"
    using ok j unfolding layer_ok_def abv_def par_def by auto
  have pl: "p < length nodes" and ql: "q < length nodes" using j pq by auto
  have vs: "v \<in> set nodes" "s \<in> set nodes" using pl ql by (simp_all add: v_def s_def)
  have jl: "j < length abv" using j by (simp add: abv_def length_paired_layer)
  have aj: "abv ! j = par" using j by (simp add: abv_def par_def paired_layer_nth)
  have split: "abv = take j abv @ abv ! j # drop (Suc j) abv"
    using jl by (simp add: id_take_nth_drop [symmetric])
  text \<open>which of the two tests is the one that can succeed\<close>
  have wrong: "sha256 (if even p then s @ v else v @ s) \<notin> set abv"
  proof
    assume a: "sha256 (if even p then s @ v else v @ s) \<in> set abv"
    show False
    proof (cases "even p")
      case True
      with a have "genuine_pair nodes s v" using g1 vs by simp
      from genuine_pair_positions [OF d this ql pl] True pq show False
        by (auto simp: s_def v_def)
    next
      case False
      with a have "genuine_pair nodes v s" using g1 vs by simp
      from genuine_pair_positions [OF d this pl ql] False show False
        by (auto simp: s_def v_def)
    qed
  qed
  have right: "sha256 (if even p then v @ s else s @ v) = par"
    using pq by (auto simp: v_def s_def par_def)
  have before: "\<forall>z \<in> set (take j abv). sha256 (v @ s) \<noteq> z \<and> sha256 (s @ v) \<noteq> z"
  proof
    fix z assume z: "z \<in> set (take j abv)"
    then have za: "z \<in> set abv" by (rule in_set_takeD)
    have "z \<noteq> par"
    proof
      assume "z = par"
      with z aj have "abv ! j \<in> set (take j abv)" by simp
      then obtain i where "i < j" "abv ! i = abv ! j" using jl
        by (auto simp: in_set_conv_nth)
      with da jl show False by (simp add: nth_eq_iff_index_eq)
    qed
    with right wrong za show "sha256 (v @ s) \<noteq> z \<and> sha256 (s @ v) \<noteq> z"
      by (cases "even p") auto
  qed
  have after: "\<forall>z \<in> set (drop (Suc j) abv). sha256 (par @ s) \<noteq> z \<and> sha256 (s @ par) \<noteq> z"
    using g2 [OF vs(2)] by (auto dest: in_set_dropD)
  have at: "above_loop sha256 s (abv ! j # drop (Suc j) abv) (route, v)
      = (route @ [[nodes ! (2 * j), nodes ! (2 * j + 1)]], par)"
  proof (cases "even p")
    case True
    with pq have e: "p = 2 * j" "q = 2 * j + 1" by auto
    have "sha256 (v @ s) = abv ! j" using right True aj by simp
    then show ?thesis
      using above_loop_nomatch [OF after] aj by (simp add: v_def s_def e)
  next
    case False
    with pq have e: "p = 2 * j + 1" "q = 2 * j" by auto
    have n: "sha256 (v @ s) \<noteq> abv ! j" using wrong False jl by (metis nth_mem)
    have "sha256 (s @ v) = abv ! j" using right False aj by simp
    then show ?thesis
      using n above_loop_nomatch [OF after] aj by (simp add: v_def s_def e)
  qed
  have "above_loop sha256 s abv (route, v) = above_loop sha256 s (abv ! j # drop (Suc j) abv)
          (above_loop sha256 s (take j abv) (route, v))"
    by (subst split) (simp only: above_loop_append)
  also have "\<dots> = (route @ [[nodes ! (2 * j), nodes ! (2 * j + 1)]], par)"
    by (simp only: above_loop_nomatch [OF before] at)
  finally show ?thesis by (simp add: abv_def v_def s_def aj [symmetric])
qed

lemma nodes_loop_paired:
  assumes ok: "layer_ok sha256 nodes (paired_layer sha256 nodes)"
    and j: "2 * j + 1 < length nodes"
    and pq: "(p = 2 * j \<and> q = 2 * j + 1) \<or> (p = 2 * j + 1 \<and> q = 2 * j)"
  shows "nodes_loop sha256 (paired_layer sha256 nodes) nodes (route, nodes ! p)
       = (route @ [[nodes ! (2 * j), nodes ! (2 * j + 1)]], paired_layer sha256 nodes ! j)"
proof -
  define abv where "abv = paired_layer sha256 nodes"
  define v where "v = nodes ! p"
  define par where "par = sha256 (nodes ! (2 * j) @ nodes ! (2 * j + 1))"
  have d: "distinct nodes"
    and g1: "\<And>u w. u \<in> set nodes \<Longrightarrow> w \<in> set nodes \<Longrightarrow> sha256 (u @ w) \<in> set abv \<Longrightarrow>
               genuine_pair nodes u w"
    and g2: "\<And>w. w \<in> set nodes \<Longrightarrow>
               sha256 (par @ w) \<notin> set abv \<and> sha256 (w @ par) \<notin> set abv"
    using ok j unfolding layer_ok_def abv_def par_def by auto
  have pl: "p < length nodes" and ql: "q < length nodes" and ne: "p \<noteq> q" using j pq by auto
  have vn: "v \<in> set nodes" using pl by (simp add: v_def)
  have aj: "abv ! j = par" using j by (simp add: abv_def par_def paired_layer_nth)
  have split: "nodes = take q nodes @ nodes ! q # drop (Suc q) nodes"
    using ql by (simp add: id_take_nth_drop [symmetric])
  have only: "i = q" if i: "i < length nodes" "nodes ! i \<noteq> v"
    and m: "sha256 (v @ nodes ! i) \<in> set abv \<or> sha256 (nodes ! i @ v) \<in> set abv" for i
  proof -
    have ni: "nodes ! i \<in> set nodes" using i by simp
    from m show ?thesis
    proof
      assume "sha256 (v @ nodes ! i) \<in> set abv"
      then have "genuine_pair nodes v (nodes ! i)" using g1 vn ni by simp
      from genuine_pair_positions [OF d this pl i(1) v_def refl]
      have "even p \<and> i = p + 1" .
      with pq show ?thesis by presburger
    next
      assume "sha256 (nodes ! i @ v) \<in> set abv"
      then have "genuine_pair nodes (nodes ! i) v" using g1 vn ni by simp
      from genuine_pair_positions [OF d this i(1) pl refl v_def]
      have "even i \<and> p = i + 1" .
      with pq show ?thesis by presburger
    qed
  qed
  have before: "\<forall>node \<in> set (take q nodes). node \<noteq> v \<longrightarrow>
      (\<forall>z \<in> set abv. sha256 (v @ node) \<noteq> z \<and> sha256 (node @ v) \<noteq> z)"
  proof (intro ballI impI)
    fix node z assume n: "node \<in> set (take q nodes)" "node \<noteq> v" and z: "z \<in> set abv"
    from n(1) ql obtain i where i: "i < q" "node = nodes ! i"
      by (auto simp: in_set_conv_nth)
    show "sha256 (v @ node) \<noteq> z \<and> sha256 (node @ v) \<noteq> z"
    proof (rule ccontr)
      assume "\<not> (sha256 (v @ node) \<noteq> z \<and> sha256 (node @ v) \<noteq> z)"
      with z have "sha256 (v @ nodes ! i) \<in> set abv \<or> sha256 (nodes ! i @ v) \<in> set abv"
        using i(2) by auto
      from only [OF _ _ this] i n(2) ql show False by simp
    qed
  qed
  have after: "\<forall>node \<in> set (drop (Suc q) nodes). node \<noteq> par \<longrightarrow>
      (\<forall>z \<in> set abv. sha256 (par @ node) \<noteq> z \<and> sha256 (node @ par) \<noteq> z)"
    using g2 by (auto dest: in_set_dropD)
  have neq: "v \<noteq> nodes ! q" using d pl ql ne by (simp add: v_def nth_eq_iff_index_eq)
  have at: "nodes_loop sha256 abv (nodes ! q # drop (Suc q) nodes) (route, v)
      = (route @ [[nodes ! (2 * j), nodes ! (2 * j + 1)]], par)"
    using neq above_loop_neighbour [OF ok j pq, of route] nodes_loop_nomatch [OF after]
    by (simp add: abv_def [symmetric] v_def [symmetric] aj)
  have "nodes_loop sha256 abv nodes (route, v)
      = nodes_loop sha256 abv (nodes ! q # drop (Suc q) nodes)
          (nodes_loop sha256 abv (take q nodes) (route, v))"
    by (subst split) (simp only: nodes_loop_append)
  also have "\<dots> = (route @ [[nodes ! (2 * j), nodes ! (2 * j + 1)]], par)"
    by (simp only: nodes_loop_nomatch [OF before] at)
  finally show ?thesis by (simp add: abv_def v_def aj [symmetric])
qed

lemma nodes_loop_carried:
  assumes ok: "layer_ok sha256 nodes (paired_layer sha256 nodes)"
    and p: "p < length nodes" "\<not> 2 * (p div 2) + 1 < length nodes"
  shows "nodes_loop sha256 (paired_layer sha256 nodes) nodes (route, nodes ! p) = (route, nodes ! p)"
proof (rule nodes_loop_nomatch, intro ballI impI)
  fix node z
  assume n: "node \<in> set nodes" "node \<noteq> nodes ! p" and z: "z \<in> set (paired_layer sha256 nodes)"
  have d: "distinct nodes"
    and g1: "\<And>u w. u \<in> set nodes \<Longrightarrow> w \<in> set nodes \<Longrightarrow>
               sha256 (u @ w) \<in> set (paired_layer sha256 nodes) \<Longrightarrow> genuine_pair nodes u w"
    using ok unfolding layer_ok_def by auto
  from n(1) obtain i where i: "i < length nodes" "node = nodes ! i"
    by (auto simp: in_set_conv_nth)
  have vn: "nodes ! p \<in> set nodes" using p(1) by simp
  show "sha256 (nodes ! p @ node) \<noteq> z \<and> sha256 (node @ nodes ! p) \<noteq> z"
  proof (rule ccontr)
    assume "\<not> (sha256 (nodes ! p @ node) \<noteq> z \<and> sha256 (node @ nodes ! p) \<noteq> z)"
    then consider "sha256 (nodes ! p @ node) \<in> set (paired_layer sha256 nodes)"
      | "sha256 (node @ nodes ! p) \<in> set (paired_layer sha256 nodes)"
      using z by auto
    then show False
    proof cases
      case 1
      then have "genuine_pair nodes (nodes ! p) node" using g1 vn n(1) by simp
      from genuine_pair_positions [OF d this p(1) i(1) refl i(2)]
      have "even p \<and> i = p + 1" .
      with i(1) p(2) show False by presburger
    next
      case 2
      then have "genuine_pair nodes node (nodes ! p)" using g1 vn n(1) by simp
      from genuine_pair_positions [OF d this i(1) p(1) i(2) refl]
      have "even i \<and> p = i + 1" .
      with p show False by presburger
    qed
  qed
qed

lemma next_position:
  assumes "p < length nodes"
  shows "paired_layer sha256 nodes ! (p div 2) =
           (if 2 * (p div 2) + 1 < length nodes
            then sha256 (nodes ! (2 * (p div 2)) @ nodes ! (2 * (p div 2) + 1))
            else nodes ! p)"
proof (cases "2 * (p div 2) + 1 < length nodes")
  case True
  then show ?thesis by (simp add: paired_layer_nth)
next
  case False
  with assms have e: "even p" "length nodes = p + 1" by presburger+
  then have "odd (length nodes)" "length nodes div 2 = p div 2" "length nodes - 1 = p"
    by simp_all
  with paired_layer_carry [of nodes sha256] False show ?thesis by simp
qed

lemma nodes_loop_step:
  assumes "layer_ok sha256 nodes (paired_layer sha256 nodes)" "p < length nodes"
  shows "nodes_loop sha256 (paired_layer sha256 nodes) nodes (route, nodes ! p)
       = (route @ (if 2 * (p div 2) + 1 < length nodes
                   then [[nodes ! (2 * (p div 2)), nodes ! (2 * (p div 2) + 1)]] else []),
          paired_layer sha256 nodes ! (p div 2))"
proof (cases "2 * (p div 2) + 1 < length nodes")
  case True
  have "(p = 2 * (p div 2) \<and> p + 1 = 2 * (p div 2) + 1) \<or> (p = 2 * (p div 2) + 1 \<and> p - 1 = 2 * (p div 2))"
    by presburger
  then obtain q where "(p = 2 * (p div 2) \<and> q = 2 * (p div 2) + 1) \<or> (p = 2 * (p div 2) + 1 \<and> q = 2 * (p div 2))"
    by blast
  from nodes_loop_paired [OF assms(1) True this, of route] True show ?thesis by simp
next
  case False
  from nodes_loop_carried [OF assms(1,2) False, of route] next_position [OF assms(2), of sha256] False
  show ?thesis by simp
qed

lemma height_loop_path:
  assumes rt: "root m = last (tree m)" "length (last (tree m)) = 1"
    and x: "x < length (tree m)"
    and lay: "\<forall>j. x \<le> j \<and> j + 1 < length (tree m) \<longrightarrow>
                2 \<le> length (tree m ! j) \<and> tree m ! (j + 1) = paired_layer sha256 (tree m ! j)"
    and ok: "no_coincidence sha256 (drop x (tree m))"
    and p: "p < length (tree m ! x)"
  shows "height_loop sha256 m [x..<length (tree m)] (route, tree m ! x ! p, k)
       = Inr (route @ auth_path_of (drop x (tree m)) p, last (tree m) ! 0, k + 1)"
  using x lay ok p
proof (induction "length (tree m) - x" arbitrary: x p route)
  case 0
  then show ?case by simp
next
  case (Suc d)
  let ?tr = "tree m"
  have xl: "x < length ?tr" using Suc.prems(1) by simp
  have up: "[x..<length ?tr] = x # [Suc x..<length ?tr]" using xl by (simp add: upt_conv_Cons)
  show ?case
  proof (cases "Suc x = length ?tr")
    case True
    then have last: "?tr ! x = last ?tr" using xl
      by (metis diff_Suc_1 last_conv_nth length_0_conv not_less_zero)
    have dr: "drop x ?tr = [last ?tr]"
      using True xl last by (metis Cons_nth_drop_Suc drop_all order_refl)
    have "p = 0" using Suc.prems(4) last rt(2) by simp
    with True last dr rt xl show ?thesis
      by (simp add: up)
  next
    case False
    with xl have sx: "Suc x < length ?tr" by simp
    from Suc.prems(2) sx have l2: "2 \<le> length (?tr ! x)"
      and nx: "?tr ! Suc x = paired_layer sha256 (?tr ! x)" by simp_all
    have dr: "drop x ?tr = ?tr ! x # ?tr ! Suc x # drop (Suc (Suc x)) ?tr"
      using xl sx by (simp add: Cons_nth_drop_Suc)
    have dr1: "drop (Suc x) ?tr = ?tr ! Suc x # drop (Suc (Suc x)) ?tr"
      using sx by (simp add: Cons_nth_drop_Suc)
    from Suc.prems(3) have lok: "layer_ok sha256 (?tr ! x) (paired_layer sha256 (?tr ! x))"
      and ok1: "no_coincidence sha256 (drop (Suc x) ?tr)"
      by (simp_all add: dr dr1 nx)
    have pl: "p < length (?tr ! x)" using Suc.prems(4) by simp
    note st = nodes_loop_step [OF lok pl, of route]
    have p2: "p div 2 < length (?tr ! Suc x)"
      using pl by (simp add: nx length_paired_layer)
    have d: "d = length ?tr - Suc x" using Suc.hyps(2) by simp
    have lay1: "\<forall>j. Suc x \<le> j \<and> j + 1 < length ?tr \<longrightarrow>
        2 \<le> length (?tr ! j) \<and> ?tr ! (j + 1) = paired_layer sha256 (?tr ! j)"
      using Suc.prems(2) by simp
    note ih = Suc.hyps(1) [OF d sx lay1 ok1 p2]
    have ne1: "length (?tr ! x) \<noteq> 1" using l2 by simp
    show ?thesis
      unfolding up
      using ne1 xl sx st ih
      by (simp add: nx [symmetric] dr dr1)
  qed
qed

lemma layers_length_lower:
  assumes "2 ^ k < length xs" "j \<le> k" "j \<le> n"
  shows "2 ^ (k - j) < length ((xs # layers_above sha256 n xs) ! j)"
  using assms
proof (induction j arbitrary: xs k n)
  case 0
  then show ?case by simp
next
  case (Suc i)
  then obtain k' n' where kn: "k = Suc k'" "n = Suc n'" by (cases k; cases n) auto
  have "2 * 2 ^ k' < length xs" using Suc.prems(1) kn by simp
  then have "2 ^ k' < length (paired_layer sha256 xs)"
    by (simp add: length_paired_layer)
  from Suc.IH [OF this, of n'] Suc.prems kn show ?case by simp
qed

lemma branches_for_lower:
  assumes "2 \<le> n" "n \<le> 512" "branches_for n = Inr nb"
  shows "1 \<le> nb \<and> 2 ^ (nb - 1) < n \<and> n \<le> 2 ^ nb"
  using assms by (auto simp: branches_for_def split: if_splits)

section \<open>Authentication paths: length and verification\<close>

lemma chained_nonempty: "chained sha256 rt path \<Longrightarrow> path \<noteq> []"
  by (cases path) simp_all

lemma auth_path_chained:
  assumes "length (last (nodes # layers_above sha256 k nodes)) = 1" "p < length nodes"
  shows "chained sha256 (last (nodes # layers_above sha256 k nodes) ! 0)
           (auth_path_of (nodes # layers_above sha256 k nodes) p) \<and>
         nodes ! p \<in> set (hd (auth_path_of (nodes # layers_above sha256 k nodes) p))"
  using assms
proof (induction k arbitrary: nodes p)
  case 0
  then obtain a where "nodes = [a]" "p = 0" by (cases nodes) auto
  then show ?case by simp
next
  case (Suc k)
  define abv where "abv = paired_layer sha256 nodes"
  define rest where "rest = auth_path_of (abv # layers_above sha256 k abv) (p div 2)"
  define rt where "rt = last (nodes # layers_above sha256 (Suc k) nodes) ! 0"
  have l: "last (nodes # layers_above sha256 (Suc k) nodes) = last (abv # layers_above sha256 k abv)"
    by (simp add: abv_def)
  have p2: "p div 2 < length abv"
    using Suc.prems(2) by (simp add: abv_def length_paired_layer)
  from Suc.IH [OF _ p2] Suc.prems(1) l
  have ih: "chained sha256 rt rest" "abv ! (p div 2) \<in> set (hd rest)"
    by (simp_all add: rest_def rt_def)
  from chained_nonempty [OF ih(1)] obtain e1 es where r: "rest = e1 # es" by (cases rest) auto
  have path: "auth_path_of (nodes # layers_above sha256 (Suc k) nodes) p =
      (if 2 * (p div 2) + 1 < length nodes
       then [nodes ! (2 * (p div 2)), nodes ! (2 * (p div 2) + 1)] # rest else rest)"
    by (simp add: abv_def rest_def)
  note np = next_position [OF Suc.prems(2), of sha256, folded abv_def]
  show ?case
  proof (cases "2 * (p div 2) + 1 < length nodes")
    case True
    have "p = 2 * (p div 2) \<or> p = 2 * (p div 2) + 1" by presburger
    then have "nodes ! p \<in> {nodes ! (2 * (p div 2)), nodes ! (2 * (p div 2) + 1)}"
      by (metis insertCI)
    with True ih np r show ?thesis
      unfolding path rt_def [symmetric] by simp
  next
    case False
    with ih np show ?thesis
      unfolding path rt_def [symmetric] by simp
  qed
qed

lemma verify_root_loop_chained:
  assumes "chained sha256 rt path"
  shows "verify_root_loop sha256 rt (pre @ path) [length pre..<length pre + length path] = Inr True"
  using assms
proof (induction sha256 rt path arbitrary: pre rule: chained.induct)
  case (1 sha256 rt)
  then show ?case by simp
next
  case (2 sha256 rt e)
  then show ?case by (simp add: upt_conv_Cons)
next
  case (3 sha256 rt e e1 es)
  from "3.prems" have e: "length e = 2" "sha256 (e ! 0 @ e ! 1) \<in> set e1"
    "chained sha256 rt (e1 # es)" by simp_all
  have "[length pre..<length pre + length (e # e1 # es)]
      = length pre # [Suc (length pre)..<length pre + length (e # e1 # es)]"
    by (rule upt_conv_Cons) simp
  then have up: "[length pre..<length pre + length (e # e1 # es)]
      = length pre # [length (pre @ [e])..<length (pre @ [e]) + length (e1 # es)]"
    by simp
  have n1: "nth_err (pre @ e # e1 # es) (length pre + 1) = Inr e1"
    by (simp add: nth_err_def nth_append)
  from "3.IH" [OF e(3), of "pre @ [e]"] e(1,2) n1 show ?case
    unfolding up by (simp add: nth_append)
qed

lemma verify_root_chained:
  assumes "key_ok pub" "rt \<noteq> []" "chained sha256 rt path" "pubhash sha256 pub \<in> set (hd path)"
  shows "verify_root sha256 pub rt path = Inr True"
proof -
  from assms(3) have ne: "path \<noteq> []" by (rule chained_nonempty)
  have pe: "\<not> pub_empty pub" using assms(1)
    by (cases pub) (auto simp: key_ok_def pub_empty_def)
  obtain joined where j: "join_pub pub = Inr joined" "sha256 joined = pubhash sha256 pub"
    using assms(1) by (cases pub) (auto simp: key_ok_def join_pub_def pubhash_def)
  have h: "nth_err path 0 = Inr (hd path)" using ne by (cases path) simp_all
  from verify_root_loop_chained [OF assms(3), of "[]"]
  have "verify_root_loop sha256 rt path [0..<length path] = Inr True" by simp
  with pe j h ne assms(2,4) show ?thesis by (simp add: verify_root_def)
qed

lemma auth_path_length:
  assumes "\<forall>j < k. 2 \<le> length ((nodes # layers_above sha256 k nodes) ! j)"
  shows "length (auth_path_of (nodes # layers_above sha256 k nodes) p) + carried k (length nodes) p
           = k + 1"
  using assms
proof (induction k arbitrary: nodes p)
  case 0
  show ?case by simp
next
  case (Suc k)
  define abv where "abv = paired_layer sha256 nodes"
  have "\<forall>j < k. 2 \<le> length ((abv # layers_above sha256 k abv) ! j)"
  proof (intro allI impI)
    fix j assume "j < k"
    then have "Suc j < Suc k" by simp
    with Suc.prems have "2 \<le> length ((nodes # layers_above sha256 (Suc k) nodes) ! Suc j)"
      by blast
    then show "2 \<le> length ((abv # layers_above sha256 k abv) ! j)" by (simp add: abv_def)
  qed
  from Suc.IH [OF this, of "p div 2"]
  have ih: "length (auth_path_of (abv # layers_above sha256 k abv) (p div 2))
      + carried k (length abv) (p div 2) = k + 1" .
  have l2: "1 < length nodes" using Suc.prems by force
  have la: "length abv = (length nodes + 1) div 2" by (simp add: abv_def length_paired_layer)
  show ?case using ih l2 by (simp add: abv_def [symmetric] la)
qed

lemma carried_power_of_two: "p < 2 ^ k \<Longrightarrow> carried k (2 ^ k) p = 0"
proof (induction k arbitrary: p)
  case 0
  show ?case by simp
next
  case (Suc k)
  have a: "2 * (p div 2) + 1 < 2 * 2 ^ k" using Suc.prems by simp presburger
  have b: "p div 2 < 2 ^ k" using Suc.prems by simp
  have c: "(2 * 2 ^ k + 1) div 2 = (2::nat) ^ k" by simp
  show ?case using a Suc.IH [OF b] by (simp add: c)
qed

lemma map_err_map:
  assumes "\<forall>x \<in> set xs. f x = Inr (g x)"
  shows "map_err f xs = Inr (map g xs)"
  using assms by (induction xs) simp_all

text \<open>The tree of two or more leaves, and its paths when there is no hash coincidence.\<close>

lemma route_proof_paths:
  assumes n: "2 \<le> length b" "length b \<le> 512"
    and ct: "create_tree sha256 (merkle_init b) = Inr m0"
    and ok: "no_coincidence sha256 (tree m0)"
  shows "route_proof sha256 m0 = Inr (m0\<lparr>auth_lists := map (auth_path_of (tree m0)) [0..<length b]\<rparr>)"
    and "\<exists>nb. branches_for (length b) = Inr nb \<and> num_branches m0 = nb \<and> height m0 = nb + 1 \<and>
           tree m0 = b # layers_above sha256 nb b \<and> root m0 = last (tree m0) \<and>
           length (root m0) = 1 \<and> (\<forall>j < nb. 2 \<le> length (tree m0 ! j)) \<and> 2 ^ (nb - 1) < length b \<and>
           length b \<le> 2 ^ nb"
proof -
  have i: "num_leaves (merkle_init b) = length (base (merkle_init b))"
    "length (base (merkle_init b)) \<le> 512" "base (merkle_init b) = b" "tree (merkle_init b) = []"
    using n by (simp_all add: merkle_init_def)
  from create_tree_layers [OF i(1,2), of sha256] ct obtain nb where
    nb: "branches_for (length b) = Inr nb"
    and m0: "m0 = (merkle_init b)\<lparr>num_branches := nb, tree := b # layers_above sha256 nb b,
                 root := last (b # layers_above sha256 nb b), height := nb + 1\<rparr>"
    unfolding i(3,4) by auto
  let ?tr = "b # layers_above sha256 nb b"
  have tr: "tree m0 = ?tr" "root m0 = last ?tr" "height m0 = nb + 1" "num_leaves m0 = length b"
    "num_branches m0 = nb"
    by (simp_all add: m0 merkle_init_def)
  note bl = branches_for_lower [OF n nb]
  have ne: "b \<noteq> []" using n by auto
  have l1: "length (last ?tr) = 1" using length_last_layer [OF ne] bl by blast
  have ge2: "2 \<le> length (?tr ! j)" if "j < nb" for j
  proof -
    have "j \<le> nb - 1" using that by simp
    from layers_length_lower [OF _ this, of b nb sha256] bl that
    have "2 ^ (nb - 1 - j) < length (?tr ! j)" by simp
    moreover have "(1::nat) \<le> 2 ^ (nb - 1 - j)" by simp
    ultimately show ?thesis by linarith
  qed
  show "\<exists>nb. branches_for (length b) = Inr nb \<and> num_branches m0 = nb \<and> height m0 = nb + 1 \<and>
           tree m0 = b # layers_above sha256 nb b \<and> root m0 = last (tree m0) \<and>
           length (root m0) = 1 \<and> (\<forall>j < nb. 2 \<le> length (tree m0 ! j)) \<and> 2 ^ (nb - 1) < length b \<and>
           length b \<le> 2 ^ nb"
    using nb tr l1 ge2 bl by auto
  have lay: "\<forall>j. 0 \<le> j \<and> j + 1 < length (tree m0) \<longrightarrow>
      2 \<le> length (tree m0 ! j) \<and> tree m0 ! (j + 1) = paired_layer sha256 (tree m0 ! j)"
  proof (intro allI impI)
    fix j assume "0 \<le> j \<and> j + 1 < length (tree m0)"
    then have j: "j < nb" by (simp add: tr)
    from layers_above_nth [OF j, of b sha256] ge2 [OF j]
    show "2 \<le> length (tree m0 ! j) \<and> tree m0 ! (j + 1) = paired_layer sha256 (tree m0 ! j)"
      by (simp add: tr)
  qed
  have leaf: "leaf_route sha256 m0 y = Inr [auth_path_of (tree m0) y]" if "y < length b" for y
  proof -
    have h: "height_loop sha256 m0 [0..<length (tree m0)] ([], tree m0 ! 0 ! y, 0)
        = Inr ([] @ auth_path_of (drop 0 (tree m0)) y, last (tree m0) ! 0, 0 + 1)"
      by (rule height_loop_path) (use tr l1 lay ok that in simp_all)
    have "length (tree m0) = height m0" by (simp add: tr)
    with h that show ?thesis
      by (simp add: leaf_route_def tr(1) [symmetric]) (simp add: tr)
  qed
  have "map_err (leaf_route sha256 m0) [0..<length b]
      = Inr (map (\<lambda>y. [auth_path_of (tree m0) y]) [0..<length b])"
    by (rule map_err_map) (simp add: leaf)
  then show "route_proof sha256 m0 = Inr (m0\<lparr>auth_lists := map (auth_path_of (tree m0)) [0..<length b]\<rparr>)"
    by (simp add: route_proof_def tr concat_map_singleton)
qed

lemma paired_layer_nonempty:
  assumes "\<forall>s \<in> set xs. s \<noteq> []" "\<forall>x. sha256 x \<noteq> []"
  shows "\<forall>s \<in> set (paired_layer sha256 xs). s \<noteq> []"
  using assms by (induction sha256 xs rule: paired_layer.induct) simp_all

lemma last_layer_nonempty:
  assumes "\<forall>s \<in> set xs. s \<noteq> []" "\<forall>x. sha256 x \<noteq> []"
  shows "\<forall>s \<in> set (last (xs # layers_above sha256 k xs)). s \<noteq> []"
  using assms(1)
proof (induction k arbitrary: xs)
  case 0
  then show ?case by simp
next
  case (Suc k)
  from Suc.IH [OF paired_layer_nonempty [OF Suc.prems assms(2)]] show ?case by simp
qed

lemma hexdigest_nonempty: "hexdigest sha256 \<Longrightarrow> sha256 x \<noteq> []"
  by (auto simp: hexdigest_def dest!: spec [of _ x])

lemma merkle_single:
  "create_tree sha256 (merkle_init [b0]) =
     Inr ((merkle_init [b0])\<lparr>num_branches := 1, tree := [[b0], [b0]], root := [b0], height := 2\<rparr>)"
  "Merkle sha256 [b0] =
     Inr ((merkle_init [b0])\<lparr>num_branches := 1, tree := [[b0], [b0]], root := [b0], height := 2,
          auth_lists := [[[b0], [b0]], [[b0], [b0]]]\<rparr>)"
proof -
  have u: "[0..<2] = [0, 1]" "[0..<1] = [0]" by (simp_all add: upt_rec)
  show c: "create_tree sha256 (merkle_init [b0]) =
     Inr ((merkle_init [b0])\<lparr>num_branches := 1, tree := [[b0], [b0]], root := [b0], height := 2\<rparr>)"
    by (simp add: create_tree_def merkle_init_def branches_for_def next_layer_def)
  show "Merkle sha256 [b0] =
     Inr ((merkle_init [b0])\<lparr>num_branches := 1, tree := [[b0], [b0]], root := [b0], height := 2,
          auth_lists := [[[b0], [b0]], [[b0], [b0]]]\<rparr>)"
    unfolding Merkle_def Let_def c
    by (simp add: merkle_init_def route_proof_def leaf_route_def u numeral_2_eq_2)
qed

text \<open>
  Claim C5, as the code has it. For 1 to 512 leaves that are the hashes of well-formed
  public keys, and every leaf \<open>i\<close>: \<open>create_tree\<close> returns a tree, and when the tree shows no
  hash coincidence, the constructor returns, the height is the number of layers, the
  authentication path of leaf \<open>i\<close> has as many elements as the height less the number of
  layers at which the node on the way up from leaf \<open>i\<close> is the unpaired last one (so the
  height itself when the number of leaves is \<open>2 ^ num_branches\<close>), and \<open>verify_root\<close>
  returns True on that path with the key of leaf \<open>i\<close> and the root.
\<close>

theorem merkle_auth_paths:
  assumes "pubs \<noteq> []" "length pubs \<le> 512" "\<forall>pub \<in> set pubs. key_ok pub"
    and "hexdigest sha256" "i < length pubs"
  shows "\<exists>m0. create_tree sha256 (merkle_init (map (pubhash sha256) pubs)) = Inr m0 \<and>
     (no_coincidence sha256 (tree m0) \<longrightarrow>
        (\<exists>m. Merkle sha256 (map (pubhash sha256) pubs) = Inr m \<and>
           tree m = tree m0 \<and> height m = length (tree m) \<and>
           length (auth_lists m ! i) + carried (num_branches m) (length pubs) i = height m \<and>
           (length pubs = 2 ^ num_branches m \<longrightarrow> length (auth_lists m ! i) = height m) \<and>
           verify_root sha256 (pubs ! i) (concat (root m)) (auth_lists m ! i) = Inr True))"
proof -
  define b where "b = map (pubhash sha256) pubs"
  have lb: "length b = length pubs" by (simp add: b_def)
  have bi: "b ! i = pubhash sha256 (pubs ! i)" using assms(5) by (simp add: b_def)
  have ki: "key_ok (pubs ! i)" using assms(3,5) by simp
  have hne: "\<forall>x. sha256 x \<noteq> []" using hexdigest_nonempty [OF assms(4)] by blast
  have bne: "\<forall>s \<in> set b. s \<noteq> []"
  proof
    fix s assume "s \<in> set b"
    then obtain pub where "s = pubhash sha256 pub" by (auto simp: b_def)
    then show "s \<noteq> []" using hne by (cases pub) (simp_all add: pubhash_def)
  qed
  show ?thesis
  proof (cases "length pubs = 1")
    case True
    then have b1: "b = [b ! 0]" "i = 0" using lb assms(5) by (cases b; simp)+
    have r: "b ! 0 \<noteq> []" using bne b1 by (metis list.set_intros(1))
    have v: "verify_root sha256 (pubs ! i) (b ! 0) [[b ! 0], [b ! 0]] = Inr True"
      using ki r bi b1(2)
      by (cases "pubs ! i")
         (auto simp: verify_root_def key_ok_def pub_empty_def join_pub_def pubhash_def upt_rec)
    have e: "map (pubhash sha256) pubs = [b ! 0]" using b1 by (simp add: b_def)
    show ?thesis
      unfolding e merkle_single
      using True v b1(2) by (simp add: merkle_init_def)
  next
    case False
    with assms(1) have n: "2 \<le> length b" "length b \<le> 512"
      using lb assms(2) by (cases pubs; cases "tl pubs"; simp)+
    have i0: "num_leaves (merkle_init b) = length (base (merkle_init b))"
      "length (base (merkle_init b)) \<le> 512"
      using n by (simp_all add: merkle_init_def)
    from create_tree_layers [OF i0, of sha256] obtain m0 where
      ct: "create_tree sha256 (merkle_init b) = Inr m0" by blast
    have main: "\<exists>m. Merkle sha256 b = Inr m \<and>
           tree m = tree m0 \<and> height m = length (tree m) \<and>
           length (auth_lists m ! i) + carried (num_branches m) (length pubs) i = height m \<and>
           (length pubs = 2 ^ num_branches m \<longrightarrow> length (auth_lists m ! i) = height m) \<and>
           verify_root sha256 (pubs ! i) (concat (root m)) (auth_lists m ! i) = Inr True"
      if ok: "no_coincidence sha256 (tree m0)"
    proof -
      note rp = route_proof_paths [OF n ct ok]
      from rp(2) obtain nb where nb: "branches_for (length b) = Inr nb" "num_branches m0 = nb"
        "height m0 = nb + 1" "tree m0 = b # layers_above sha256 nb b" "root m0 = last (tree m0)"
        "length (root m0) = 1" "\<forall>j < nb. 2 \<le> length (tree m0 ! j)" by blast
      define m where "m = m0\<lparr>auth_lists := map (auth_path_of (tree m0)) [0..<length b]\<rparr>"
      have bm: "base (merkle_init b) \<noteq> []" using n by (auto simp: merkle_init_def)
      have mk: "Merkle sha256 b = Inr m"
        using ct rp(1) bm by (simp add: Merkle_def Let_def m_def)
      have al: "auth_lists m ! i = auth_path_of (b # layers_above sha256 nb b) i"
        using assms(5) lb by (simp add: m_def nb(4))
      have len: "length (auth_lists m ! i) + carried nb (length b) i = nb + 1"
        unfolding al by (rule auth_path_length) (use nb(4,7) in simp)
      have pw: "length (auth_lists m ! i) = nb + 1" if "length pubs = 2 ^ nb"
        using len carried_power_of_two [of i nb] that assms(5) lb by simp
      have l1: "length (last (b # layers_above sha256 nb b)) = 1" using nb(4,5,6) by simp
      note ch = auth_path_chained [OF l1, of i] 
      have il: "i < length b" using assms(5) lb by simp
      obtain r where r: "last (b # layers_above sha256 nb b) = [r]"
        using l1 by (cases "last (b # layers_above sha256 nb b)") auto
      have rne: "r \<noteq> []"
        using last_layer_nonempty [OF bne hne, of nb] r by (metis list.set_intros(1))
      have "root m0 = [r]" unfolding nb(5) nb(4) by (rule r)
      then have cr: "concat (root m) = r" by (simp add: m_def)
      have "verify_root sha256 (pubs ! i) r (auth_path_of (b # layers_above sha256 nb b) i) = Inr True"
        by (rule verify_root_chained) (use ki rne ch [OF il] r bi in simp_all)
      with mk len pw al cr nb lb show ?thesis
        by (simp add: m_def)
    qed
    from ct main show ?thesis unfolding b_def [symmetric] by blast
  qed
qed

lemma length_stir: "length (stir s c) \<le> length s"
  by (simp add: stir_def)

lemma length_foldl_stir: "length (foldl stir s x) \<le> length s"
proof (induction x arbitrary: s)
  case Nil
  show ?case by simp
next
  case (Cons c x)
  have "length (foldl stir (stir s c) x) \<le> length (stir s c)" by (rule Cons.IH)
  also have "\<dots> \<le> length s" by (rule length_stir)
  finally show ?case by simp
qed

lemma hexchar_hex: "hexchar a b c d \<in> set ''0123456789abcdef''"
  by (cases a; cases b; cases c; cases d) simp_all

lemma nibbles_hex: "length (nibbles bs) \<le> length bs \<and> set (nibbles bs) \<subseteq> set ''0123456789abcdef''"
proof (induction bs rule: nibbles.induct)
  case (1 a b c d bs)
  then show ?case using hexchar_hex [of a b c d] by simp
qed simp_all

lemma bits_sha256_hexdigest: "hexdigest bits_sha256"
proof -
  define hs where "hs = set ''0123456789abcdef''"
  have z: "CHR ''0'' \<in> hs" by (simp add: hs_def)
  have "length (bits_sha256 x) = 64 \<and> set (bits_sha256 x) \<subseteq> hs" for x
  proof -
    define d where "d = nibbles (foldl stir (replicate 17 False) x)"
    have "length d \<le> length (foldl stir (replicate 17 False) x)"
      unfolding d_def using nibbles_hex by blast
    also have "\<dots> \<le> length (replicate 17 False)" by (rule length_foldl_stir)
    finally have l: "length d \<le> 64" by simp
    have s: "set d \<subseteq> hs" unfolding d_def hs_def using nibbles_hex by blast
    have b: "bits_sha256 x = replicate (64 - length d) (CHR ''0'') @ d"
      by (simp add: bits_sha256_def Let_def d_def)
    from l s z show ?thesis unfolding b by auto
  qed
  then show ?thesis by (simp add: hexdigest_def hs_def)
qed

lemma three_keys_no_coincidence:
  "case create_tree bits_sha256 (merkle_init (map (pubhash bits_sha256) three_keys)) of
     Inl e \<Rightarrow> False | Inr m0 \<Rightarrow> no_coincidence bits_sha256 (tree m0)"
  by code_simp

lemma two_keys_no_coincidence:
  "case create_tree bits_sha256 (merkle_init (map (pubhash bits_sha256) (take 2 three_keys))) of
     Inl e \<Rightarrow> False | Inr m0 \<Rightarrow> no_coincidence bits_sha256 (tree m0)"
  by code_simp

lemma two_keys_branches:
  "map_sum id num_branches (Merkle bits_sha256 (map (pubhash bits_sha256) (take 2 three_keys))) = Inr 1"
  by code_simp

theorem merkle_auth_paths_witness:
  "(\<exists>m. Merkle bits_sha256 (map (pubhash bits_sha256) three_keys) = Inr m \<and>
      no_coincidence bits_sha256 (tree m) \<and> height m = length (tree m) \<and>
      length (auth_lists m ! 2) + carried (num_branches m) (length three_keys) 2 = height m \<and>
      verify_root bits_sha256 (three_keys ! 2) (concat (root m)) (auth_lists m ! 2) = Inr True) \<and>
   (\<exists>m. Merkle bits_sha256 (map (pubhash bits_sha256) (take 2 three_keys)) = Inr m \<and>
      no_coincidence bits_sha256 (tree m) \<and> length (take 2 three_keys) = 2 ^ num_branches m \<and>
      length (auth_lists m ! 1) = height m \<and>
      verify_root bits_sha256 (take 2 three_keys ! 1) (concat (root m)) (auth_lists m ! 1) = Inr True)"
proof -
  have k3: "three_keys \<noteq> []" "length three_keys \<le> 512" "\<forall>pub \<in> set three_keys. key_ok pub"
    "2 < length three_keys"
    by (simp_all add: three_keys_def key_ok_def)
  have k2: "take 2 three_keys \<noteq> []" "length (take 2 three_keys) \<le> 512"
    "\<forall>pub \<in> set (take 2 three_keys). key_ok pub" "1 < length (take 2 three_keys)"
    "length (take 2 three_keys) = 2"
    by (simp_all add: three_keys_def key_ok_def)
  obtain m0 where m0: "create_tree bits_sha256 (merkle_init (map (pubhash bits_sha256) three_keys)) = Inr m0"
    and i0: "no_coincidence bits_sha256 (tree m0) \<longrightarrow>
      (\<exists>m. Merkle bits_sha256 (map (pubhash bits_sha256) three_keys) = Inr m \<and> tree m = tree m0 \<and>
         height m = length (tree m) \<and>
         length (auth_lists m ! 2) + carried (num_branches m) (length three_keys) 2 = height m \<and>
         (length three_keys = 2 ^ num_branches m \<longrightarrow> length (auth_lists m ! 2) = height m) \<and>
         verify_root bits_sha256 (three_keys ! 2) (concat (root m)) (auth_lists m ! 2) = Inr True)"
    using merkle_auth_paths [OF k3(1) k3(2) k3(3) bits_sha256_hexdigest k3(4)] by blast
  have n0: "no_coincidence bits_sha256 (tree m0)"
    using three_keys_no_coincidence by (simp add: m0)
  obtain m1 where m1: "create_tree bits_sha256 (merkle_init (map (pubhash bits_sha256) (take 2 three_keys))) = Inr m1"
    and i1: "no_coincidence bits_sha256 (tree m1) \<longrightarrow>
      (\<exists>m. Merkle bits_sha256 (map (pubhash bits_sha256) (take 2 three_keys)) = Inr m \<and> tree m = tree m1 \<and>
         height m = length (tree m) \<and>
         length (auth_lists m ! 1) + carried (num_branches m) (length (take 2 three_keys)) 1 = height m \<and>
         (length (take 2 three_keys) = 2 ^ num_branches m \<longrightarrow> length (auth_lists m ! 1) = height m) \<and>
         verify_root bits_sha256 (take 2 three_keys ! 1) (concat (root m)) (auth_lists m ! 1) = Inr True)"
    using merkle_auth_paths [OF k2(1) k2(2) k2(3) bits_sha256_hexdigest k2(4)] by blast
  have n1: "no_coincidence bits_sha256 (tree m1)"
    using two_keys_no_coincidence by (simp add: m1)
  from i0 n0 obtain m where m:
    "Merkle bits_sha256 (map (pubhash bits_sha256) three_keys) = Inr m" "tree m = tree m0"
    "height m = length (tree m)"
    "length (auth_lists m ! 2) + carried (num_branches m) (length three_keys) 2 = height m"
    "verify_root bits_sha256 (three_keys ! 2) (concat (root m)) (auth_lists m ! 2) = Inr True"
    by blast
  from i1 n1 obtain m' where m':
    "Merkle bits_sha256 (map (pubhash bits_sha256) (take 2 three_keys)) = Inr m'" "tree m' = tree m1"
    "length (take 2 three_keys) = 2 ^ num_branches m' \<longrightarrow> length (auth_lists m' ! 1) = height m'"
    "verify_root bits_sha256 (take 2 three_keys ! 1) (concat (root m')) (auth_lists m' ! 1) = Inr True"
    by blast
  have nb: "num_branches m' = 1" using two_keys_branches by (simp add: m'(1))
  have p: "length (take 2 three_keys) = 2 ^ num_branches m'" unfolding nb k2(5) by simp
  with m'(3) have e: "length (auth_lists m' ! 1) = height m'" by blast
  have a: "\<exists>m. Merkle bits_sha256 (map (pubhash bits_sha256) three_keys) = Inr m \<and>
      no_coincidence bits_sha256 (tree m) \<and> height m = length (tree m) \<and>
      length (auth_lists m ! 2) + carried (num_branches m) (length three_keys) 2 = height m \<and>
      verify_root bits_sha256 (three_keys ! 2) (concat (root m)) (auth_lists m ! 2) = Inr True"
    using m n0 by auto
  have b: "\<exists>m. Merkle bits_sha256 (map (pubhash bits_sha256) (take 2 three_keys)) = Inr m \<and>
      no_coincidence bits_sha256 (tree m) \<and> length (take 2 three_keys) = 2 ^ num_branches m \<and>
      length (auth_lists m ! 1) = height m \<and>
      verify_root bits_sha256 (take 2 three_keys ! 1) (concat (root m)) (auth_lists m ! 1) = Inr True"
    using m' n1 p e by auto
  from a b show ?thesis by blast
qed

text \<open>
  Claim C5 as the specification words it, that the authentication path of every leaf is
  as long as the height: with three key pairs the tree has three layers, and the path of
  the third leaf, which is carried to the second layer unpaired, has two elements (its
  pair in the second layer and the root). The path verifies all the same.
\<close>

theorem merkle_auth_paths_counterexample:
  "map_sum id (\<lambda>m. (height m, length (auth_lists m ! 2),
       verify_root bits_sha256 (three_keys ! 2) (concat (root m)) (auth_lists m ! 2)))
     (Merkle bits_sha256 (map (pubhash bits_sha256) three_keys)) = Inr (3, 2, Inr True)"
  by code_simp

end
